theory Spec2Isabelle
  imports Main "HOL-Library.Sublist"
begin

section \<open>JSON values\<close>

text \<open>
  The handler of \<^verbatim>\<open>src/jsonUtils.ts\<close> receives \<^verbatim>\<open>data: any\<close>; the values it
  is fed are JSON values. An object is the list of its own enumerable properties in
  the order \<^verbatim>\<open>Object.keys\<close> enumerates them (a JavaScript object never has two
  properties of one name: see \<open>json_wf\<close>). Strings are \<open>char list\<close>s: the
  characters beyond ASCII that the source's literals use are written as their UTF-8
  bytes.

  The handler never computes with the numbers of its data: it tests them for zero,
  asks their type and writes them as text. A number is therefore held as the decimal
  numeral that the runtime writes for it (\<^verbatim>\<open>Number::toString\<close> of ECMA-262: the
  shortest numeral that reads back as the same number). \<open>JNum i\<close> is a number written
  in plain digits, an integer of at most 21 digits; \<open>JNegZero\<close> is \<^verbatim>\<open>-0\<close>; every
  other number is \<open>JDec neg s n\<close>, of sign \<open>neg\<close>, with the digits \<open>s\<close> (the last of
  them not zero) and the decimal point at the place \<open>n\<close>, counted from the front of
  the digits: for \<open>k\<close> digits its value is \<open>s * 10 ^ (n - k)\<close>, so that \<^verbatim>\<open>4.5\<close> is
  \<open>JDec False 45 1\<close>, \<^verbatim>\<open>0.05\<close> is \<open>JDec False 5 (- 1)\<close> and \<^verbatim>\<open>1e+21\<close> is
  \<open>JDec False 1 22\<close>. \<^verbatim>\<open>NaN\<close> and the infinities are no JSON values.
\<close>

datatype json =
    JNull
  | JBool bool
  | JNum int
  | JNegZero
  | JDec bool nat int
  | JStr string
  | JArr "json list"
  | JObj "(string \<times> json) list"

text \<open>\<^verbatim>\<open>!data\<close>: the falsy values among the JSON values.\<close>

fun falsy :: "json \<Rightarrow> bool" where
  "falsy JNull = True"
| "falsy (JBool b) = (\<not> b)"
| "falsy (JNum n) = (n = 0)"
| "falsy JNegZero = True"
| "falsy (JDec neg s n) = (s = 0)"
| "falsy (JStr s) = (s = [])"
| "falsy (JArr xs) = False"
| "falsy (JObj kvs) = False"

text \<open>\<^verbatim>\<open>typeof v\<close>; \<^verbatim>\<open>typeof null\<close> is \<^verbatim>\<open>'object'\<close>, and so is an array's.\<close>

fun typeof :: "json \<Rightarrow> string" where
  "typeof JNull = ''object''"
| "typeof (JBool b) = ''boolean''"
| "typeof (JNum n) = ''number''"
| "typeof JNegZero = ''number''"
| "typeof (JDec neg s n) = ''number''"
| "typeof (JStr s) = ''string''"
| "typeof (JArr xs) = ''object''"
| "typeof (JObj kvs) = ''object''"

section \<open>Strings and numerals\<close>

definition digit_char :: "nat \<Rightarrow> char" where
  "digit_char d = ''0123456789'' ! (d mod 10)"

text \<open>The decimal numeral of a natural number, as string concatenation with a number gives it.\<close>

fun show_nat :: "nat \<Rightarrow> string" where
  "show_nat n = (if n < 10 then [digit_char n] else show_nat (n div 10) @ [digit_char (n mod 10)])"

declare show_nat.simps [simp del]

definition show_int :: "int \<Rightarrow> string" where
  "show_int i = (if i < 0 then CHR ''-'' # show_nat (nat (- i)) else show_nat (nat i))"

text \<open>
  \<^verbatim>\<open>Number::toString\<close> on the number of digits \<open>s\<close> with the decimal point at the
  place \<open>n\<close>: plain digits, padded with zeros, for an integer of at most 21 digits; a
  point inside the digits; \<^verbatim>\<open>0.\<close>, up to five zeros and the digits; and otherwise
  the first digit, the others after a point, and the exponent \<open>n - 1\<close> with its sign.
\<close>

definition show_dec :: "nat \<Rightarrow> int \<Rightarrow> string" where
  "show_dec s n =
     (let ds = show_nat s; k = int (length ds)
      in if k \<le> n \<and> n \<le> 21 then ds @ replicate (nat (n - k)) CHR ''0''
         else if 0 < n \<and> n \<le> 21 then take (nat n) ds @ ''.'' @ drop (nat n) ds
         else if - 6 < n \<and> n \<le> 0 then ''0.'' @ replicate (nat (- n)) CHR ''0'' @ ds
         else (if k = 1 then ds else hd ds # ''.'' @ tl ds)
                @ ''e'' @ (if n - 1 < 0 then ''-'' else ''+'') @ show_nat (nat (abs (n - 1))))"

definition show_number :: "bool \<Rightarrow> nat \<Rightarrow> int \<Rightarrow> string" where
  "show_number neg s n = (if neg then CHR ''-'' # show_dec s n else show_dec s n)"

text \<open>\<^verbatim>\<open>parts.join(sep)\<close>.\<close>

fun join :: "string \<Rightarrow> string list \<Rightarrow> string" where
  "join sep [] = []"
| "join sep [x] = x"
| "join sep (x # y # ys) = x @ sep @ join sep (y # ys)"

text \<open>\<^verbatim>\<open>s.split(c)\<close> for a one-character separator: never the empty list.\<close>

fun split_on :: "char \<Rightarrow> string \<Rightarrow> string list" where
  "split_on c [] = [[]]"
| "split_on c (x # xs) =
     (if x = c then [] # split_on c xs
      else (case split_on c xs of [] \<Rightarrow> [[x]] | p # ps \<Rightarrow> (x # p) # ps))"

text \<open>\<^verbatim>\<open>haystack.includes(needle)\<close>.\<close>

fun str_includes :: "string \<Rightarrow> string \<Rightarrow> bool" where
  "str_includes [] needle = (needle = [])"
| "str_includes (x # xs) needle = (prefix needle (x # xs) \<or> str_includes xs needle)"

section \<open>The runtime's JSON text: \<^verbatim>\<open>JSON.stringify\<close> and \<^verbatim>\<open>JSON.parse\<close>\<close>

text \<open>
  \<^verbatim>\<open>JSON.stringify(value, null, space)\<close> after ECMA-262 (SerializeJSONProperty,
  SerializeJSONArray, SerializeJSONObject, QuoteJSONString). \<open>gap\<close> is the empty
  string when no \<^verbatim>\<open>space\<close> is given and two blanks for \<^verbatim>\<open>space = 2\<close>.
\<close>

definition hex_char :: "nat \<Rightarrow> char" where
  "hex_char d = ''0123456789abcdef'' ! (d mod 16)"

definition dquote :: char where
  "dquote = CHR 0x22"

definition backslash :: char where
  "backslash = CHR 0x5C"

definition newline :: char where
  "newline = CHR 0x0A"

definition quote_char :: "char \<Rightarrow> string" where
  "quote_char c =
     (if c = CHR 0x08 then [backslash, CHR ''b'']
      else if c = CHR 0x09 then [backslash, CHR ''t'']
      else if c = CHR 0x0A then [backslash, CHR ''n'']
      else if c = CHR 0x0C then [backslash, CHR ''f'']
      else if c = CHR 0x0D then [backslash, CHR ''r'']
      else if c = dquote then [backslash, dquote]
      else if c = backslash then [backslash, backslash]
      else if (of_char c :: nat) < 32
        then [backslash, CHR ''u'', CHR ''0'', CHR ''0'',
              hex_char (of_char c div 16), hex_char (of_char c mod 16)]
      else [c])"

definition QuoteJSONString :: "string \<Rightarrow> string" where
  "QuoteJSONString s = dquote # concat (map quote_char s) @ [dquote]"

definition wrap_partial :: "string \<Rightarrow> string \<Rightarrow> char \<Rightarrow> char \<Rightarrow> string list \<Rightarrow> string" where
  "wrap_partial gap stepback opn cls partial =
     (if partial = [] then [opn, cls]
      else if gap = [] then opn # join '','' partial @ [cls]
      else (let indent = stepback @ gap
            in opn # newline # indent @ join (CHR '','' # newline # indent) partial
                 @ newline # stepback @ [cls]))"

fun SerializeJSONProperty :: "string \<Rightarrow> string \<Rightarrow> json \<Rightarrow> string" where
  "SerializeJSONProperty gap indent JNull = ''null''"
| "SerializeJSONProperty gap indent (JBool b) = (if b then ''true'' else ''false'')"
| "SerializeJSONProperty gap indent (JNum n) = show_int n"
| "SerializeJSONProperty gap indent JNegZero = ''0''"
| "SerializeJSONProperty gap indent (JDec neg s n) = show_number neg s n"
| "SerializeJSONProperty gap indent (JStr s) = QuoteJSONString s"
| "SerializeJSONProperty gap indent (JArr xs) =
     wrap_partial gap indent CHR ''['' CHR '']''
       (map (SerializeJSONProperty gap (indent @ gap)) xs)"
| "SerializeJSONProperty gap indent (JObj kvs) =
     wrap_partial gap indent CHR ''{'' CHR ''}''
       (map (\<lambda>kv. QuoteJSONString (fst kv) @ CHR '':'' # (if gap = [] then [] else '' '')
                   @ SerializeJSONProperty gap (indent @ gap) (snd kv)) kvs)"

definition JSON_stringify :: "json \<Rightarrow> nat \<Rightarrow> string" where
  "JSON_stringify v space = SerializeJSONProperty (replicate (min space 10) CHR '' '') [] v"

text \<open>
  \<^verbatim>\<open>JSON.parse(text)\<close>: the JSON grammar of ECMA-404 over the model's values.
  White space is blank, tab, line feed and carriage return. A numeral is read as the
  number it writes, to the last digit; the runtime rounds a numeral of more digits than
  a \<^verbatim>\<open>number\<close> holds to the nearest one, which changes nothing for the numerals the
  runtime itself writes. A four-digit code-unit escape beyond ASCII is refused; the
  texts the handler parses are written by \<open>JSON_stringify\<close>, which emits none. A
  property named twice keeps its first position and its last value. The descent is
  bounded by fuel: \<open>JSON_parse\<close> starts with twice the length of the text and two
  more, which is enough for every text the serialiser writes (\<open>fuel_of_length\<close>);
  \<open>None\<close> is the \<^verbatim>\<open>SyntaxError\<close>.
\<close>

definition is_ws :: "char \<Rightarrow> bool" where
  "is_ws c = (c = CHR '' '' \<or> c = CHR 0x09 \<or> c = CHR 0x0A \<or> c = CHR 0x0D)"

definition skip_ws :: "string \<Rightarrow> string" where
  "skip_ws s = dropWhile is_ws s"

definition is_digit :: "char \<Rightarrow> bool" where
  "is_digit c = (48 \<le> (of_char c :: nat) \<and> (of_char c :: nat) \<le> 57)"

definition digit_val :: "char \<Rightarrow> nat" where
  "digit_val c = of_char c - 48"

definition hex_val :: "char \<Rightarrow> nat option" where
  "hex_val c =
     (if is_digit c then Some (of_char c - 48)
      else if 97 \<le> (of_char c :: nat) \<and> (of_char c :: nat) \<le> 102 then Some (of_char c - 87)
      else if 65 \<le> (of_char c :: nat) \<and> (of_char c :: nat) \<le> 70 then Some (of_char c - 55)
      else None)"

definition hex4 :: "char \<Rightarrow> char \<Rightarrow> char \<Rightarrow> char \<Rightarrow> nat option" where
  "hex4 a b c d =
     (case (hex_val a, hex_val b, hex_val c, hex_val d) of
        (Some h1, Some h2, Some h3, Some h4) \<Rightarrow> Some (((h1 * 16 + h2) * 16 + h3) * 16 + h4)
      | _ \<Rightarrow> None)"

definition unescape :: "char \<Rightarrow> char option" where
  "unescape e =
     (if e = dquote then Some dquote
      else if e = backslash then Some backslash
      else if e = CHR ''/'' then Some CHR ''/''
      else if e = CHR ''b'' then Some (CHR 0x08)
      else if e = CHR ''f'' then Some (CHR 0x0C)
      else if e = CHR ''n'' then Some (CHR 0x0A)
      else if e = CHR ''r'' then Some (CHR 0x0D)
      else if e = CHR ''t'' then Some (CHR 0x09)
      else None)"

definition consc :: "char \<Rightarrow> (string \<times> string) option \<Rightarrow> (string \<times> string) option" where
  "consc c r = map_option (\<lambda>(s, rest). (c # s, rest)) r"

text \<open>The characters of a string literal, after its opening quote.\<close>

fun parse_chars :: "string \<Rightarrow> (string \<times> string) option" where
  "parse_chars [] = None"
| "parse_chars [c] = (if c = dquote then Some ([], []) else None)"
| "parse_chars (c # e # cs) =
     (if c = dquote then Some ([], e # cs)
      else if c = backslash then
        (if e = CHR ''u'' then
           (case cs of
              h1 # h2 # h3 # h4 # cs' \<Rightarrow>
                (case hex4 h1 h2 h3 h4 of
                   Some n \<Rightarrow> if n < 128 then consc (char_of n) (parse_chars cs') else None
                 | None \<Rightarrow> None)
            | _ \<Rightarrow> None)
         else (case unescape e of
                 Some ch \<Rightarrow> consc ch (parse_chars cs)
               | None \<Rightarrow> None))
      else if (of_char c :: nat) < 32 then None
      else consc c (parse_chars (e # cs)))"

definition digits_to_nat :: "string \<Rightarrow> nat" where
  "digits_to_nat ds = foldl (\<lambda>a c. 10 * a + digit_val c) 0 ds"

text \<open>
  The number read from a numeral: \<open>ds\<close> are its digits, those before and those after
  the point, and \<open>p\<close> is the place of the point counted from the front of them, the
  exponent added. Zeros in front and at the end are dropped; nothing but zeros is
  zero, \<^verbatim>\<open>-0\<close> under a minus sign.
\<close>

definition number_of :: "bool \<Rightarrow> string \<Rightarrow> int \<Rightarrow> json" where
  "number_of neg ds p =
     (let sig = dropWhile (\<lambda>c. c = CHR ''0'') ds;
          m = rev (dropWhile (\<lambda>c. c = CHR ''0'') (rev sig));
          n = p - int (length ds - length sig)
      in if sig = [] then (if neg then JNegZero else JNum 0)
         else if int (length m) \<le> n \<and> n \<le> 21
           then JNum ((if neg then - 1 else 1) * int (digits_to_nat m * 10 ^ nat (n - int (length m))))
         else JDec neg (digits_to_nat m) n)"

text \<open>The three parts of a numeral: the integer part, the fraction and the exponent.\<close>

definition parse_int_part :: "string \<Rightarrow> (string \<times> string) option" where
  "parse_int_part s =
     (case s of
        [] \<Rightarrow> None
      | c # r \<Rightarrow>
          if c = CHR ''0'' then Some (''0'', r)
          else if is_digit c then Some (takeWhile is_digit s, dropWhile is_digit s)
          else None)"

definition parse_frac :: "string \<Rightarrow> (string \<times> string) option" where
  "parse_frac s =
     (case s of
        [] \<Rightarrow> Some ([], s)
      | c # r \<Rightarrow>
          if c = CHR ''.''
          then (if takeWhile is_digit r = [] then None
                else Some (takeWhile is_digit r, dropWhile is_digit r))
          else Some ([], s))"

definition parse_exp :: "string \<Rightarrow> (int \<times> string) option" where
  "parse_exp s =
     (case s of
        [] \<Rightarrow> Some (0, s)
      | c # r \<Rightarrow>
          if c = CHR ''e'' \<or> c = CHR ''E''
          then (let minus = (r \<noteq> [] \<and> hd r = CHR ''-'');
                    r' = (if r \<noteq> [] \<and> (hd r = CHR ''-'' \<or> hd r = CHR ''+'') then tl r else r);
                    ds = takeWhile is_digit r'
                in if ds = [] then None
                   else Some (if minus then - int (digits_to_nat ds) else int (digits_to_nat ds),
                              dropWhile is_digit r'))
          else Some (0, s))"

definition parse_numeral :: "bool \<Rightarrow> string \<Rightarrow> (json \<times> string) option" where
  "parse_numeral neg s =
     (case parse_int_part s of
        None \<Rightarrow> None
      | Some (ip, s1) \<Rightarrow>
          (case parse_frac s1 of
             None \<Rightarrow> None
           | Some (fp, s2) \<Rightarrow>
               (case parse_exp s2 of
                  None \<Rightarrow> None
                | Some (e, s3) \<Rightarrow>
                    Some (number_of neg (ip @ fp) (int (length ip) + e), s3))))"

definition parse_number :: "string \<Rightarrow> (json \<times> string) option" where
  "parse_number s =
     (case s of
        [] \<Rightarrow> None
      | c # r \<Rightarrow> if c = CHR ''-'' then parse_numeral True r else parse_numeral False s)"

definition parse_literal :: "string \<Rightarrow> json \<Rightarrow> string \<Rightarrow> (json \<times> string) option" where
  "parse_literal word v s = (if prefix word s then Some (v, drop (length word) s) else None)"

text \<open>Assigning a property: an own property keeps its place, a new one goes last.\<close>

fun obj_set :: "(string \<times> json) list \<Rightarrow> string \<Rightarrow> json \<Rightarrow> (string \<times> json) list" where
  "obj_set [] k v = [(k, v)]"
| "obj_set ((k', v') # kvs) k v =
     (if k' = k then (k, v) # kvs else (k', v') # obj_set kvs k v)"

definition obj_of_members :: "(string \<times> json) list \<Rightarrow> (string \<times> json) list" where
  "obj_of_members ms = foldl (\<lambda>acc kv. obj_set acc (fst kv) (snd kv)) [] ms"

fun parse_value :: "nat \<Rightarrow> string \<Rightarrow> (json \<times> string) option"
  and parse_elems :: "nat \<Rightarrow> string \<Rightarrow> (json list \<times> string) option"
  and parse_members :: "nat \<Rightarrow> string \<Rightarrow> ((string \<times> json) list \<times> string) option"
where
  "parse_value 0 s = None"
| "parse_value (Suc n) s =
     (case s of
        [] \<Rightarrow> None
      | c # r \<Rightarrow>
          if c = CHR ''n'' then parse_literal ''null'' JNull s
          else if c = CHR ''t'' then parse_literal ''true'' (JBool True) s
          else if c = CHR ''f'' then parse_literal ''false'' (JBool False) s
          else if c = dquote then map_option (\<lambda>(str, r'). (JStr str, r')) (parse_chars r)
          else if c = CHR ''['' then
            (case skip_ws r of
               [] \<Rightarrow> None
             | d # r' \<Rightarrow>
                 if d = CHR '']'' then Some (JArr [], r')
                 else map_option (\<lambda>(vs, r''). (JArr vs, r'')) (parse_elems n (d # r')))
          else if c = CHR ''{'' then
            (case skip_ws r of
               [] \<Rightarrow> None
             | d # r' \<Rightarrow>
                 if d = CHR ''}'' then Some (JObj [], r')
                 else map_option (\<lambda>(ms, r''). (JObj (obj_of_members ms), r''))
                        (parse_members n (d # r')))
          else parse_number s)"
| "parse_elems 0 s = None"
| "parse_elems (Suc n) s =
     (case parse_value n s of
        None \<Rightarrow> None
      | Some (v, r) \<Rightarrow>
          (case skip_ws r of
             [] \<Rightarrow> None
           | d # r' \<Rightarrow>
               if d = CHR '']'' then Some ([v], r')
               else if d = CHR '','' then
                 map_option (\<lambda>(vs, r''). (v # vs, r'')) (parse_elems n (skip_ws r'))
               else None))"
| "parse_members 0 s = None"
| "parse_members (Suc n) s =
     (case s of
        [] \<Rightarrow> None
      | q # r0 \<Rightarrow>
          if q \<noteq> dquote then None
          else
            (case parse_chars r0 of
               None \<Rightarrow> None
             | Some (k, r1) \<Rightarrow>
                 (case skip_ws r1 of
                    [] \<Rightarrow> None
                  | col # r2 \<Rightarrow>
                      if col \<noteq> CHR '':'' then None
                      else
                        (case parse_value n (skip_ws r2) of
                           None \<Rightarrow> None
                         | Some (v, r3) \<Rightarrow>
                             (case skip_ws r3 of
                                [] \<Rightarrow> None
                              | d # r4 \<Rightarrow>
                                  if d = CHR ''}'' then Some ([(k, v)], r4)
                                  else if d = CHR '','' then
                                    map_option (\<lambda>(ms, r5). ((k, v) # ms, r5))
                                      (parse_members n (skip_ws r4))
                                  else None)))))"

definition JSON_parse :: "string \<Rightarrow> json option" where
  "JSON_parse s =
     (case parse_value (2 * length s + 2) (skip_ws s) of
        None \<Rightarrow> None
      | Some (v, r) \<Rightarrow> if skip_ws r = [] then Some v else None)"

section \<open>The handler: \<^verbatim>\<open>JsonResponseHandler\<close>\<close>

text \<open>
  The configuration holds the threshold. The source types it \<^verbatim>\<open>number\<close>; it is an
  integer here, and what the source does with a negative one is written out.
\<close>

record JsonResponseConfig =
  maxItemsForContext :: int

record LargeArrayFieldResult =
  fieldPath :: string
  array :: "json list"
  parentObj :: "json option"
  fieldKey :: string

record LimitItemsResult =
  limited :: json
  originalCount :: int
  wasLimited :: bool
  limitedField :: "string option"

text \<open>
  What a call can end in instead of returning. \<open>Unmodelled\<close> is no exception of the
  runtime: it ends a run that reads or writes a property the data does not own (one
  inherited from a prototype, or one of an array or a primitive), where objects of
  the runtime decide what happens.
\<close>

datatype failure = TypeError | SyntaxError | SystemError string | Unmodelled

subsection \<open>\<^verbatim>\<open>findLargeArrayField\<close>\<close>

text \<open>
  The loop over \<^verbatim>\<open>Object.keys(data)\<close> is \<open>findLargeArrayField_loop\<close>, on the
  properties still to visit; \<^verbatim>\<open>data[key]\<close> is the value enumerated with the key.
\<close>

fun findLargeArrayField ::
    "JsonResponseConfig \<Rightarrow> json \<Rightarrow> string \<Rightarrow> LargeArrayFieldResult option"
  and findLargeArrayField_loop ::
    "JsonResponseConfig \<Rightarrow> json \<Rightarrow> (string \<times> json) list \<Rightarrow> string \<Rightarrow> LargeArrayFieldResult option"
where
  "findLargeArrayField cfg JNull pathStr = None"
| "findLargeArrayField cfg (JBool b) pathStr = None"
| "findLargeArrayField cfg (JNum n) pathStr = None"
| "findLargeArrayField cfg JNegZero pathStr = None"
| "findLargeArrayField cfg (JDec neg s n) pathStr = None"
| "findLargeArrayField cfg (JStr s) pathStr = None"
| "findLargeArrayField cfg (JArr xs) pathStr =
     (if int (length xs) > maxItemsForContext cfg
      then Some \<lparr>fieldPath = (if pathStr \<noteq> [] then pathStr else ''(root)''),
                 array = xs, parentObj = None, fieldKey = []\<rparr>
      else None)"
| "findLargeArrayField cfg (JObj kvs) pathStr = findLargeArrayField_loop cfg (JObj kvs) kvs pathStr"
| "findLargeArrayField_loop cfg data [] pathStr = None"
| "findLargeArrayField_loop cfg data ((key, val) # rest) pathStr =
     (let currentPath = (if pathStr \<noteq> [] then pathStr @ ''.'' @ key else key)
      in case val of
           JArr xs \<Rightarrow>
             if int (length xs) > maxItemsForContext cfg
             then Some \<lparr>fieldPath = currentPath, array = xs, parentObj = Some data, fieldKey = key\<rparr>
             else findLargeArrayField_loop cfg data rest pathStr
         | JObj kvs \<Rightarrow>
             (case findLargeArrayField cfg (JObj kvs) currentPath of
                Some found \<Rightarrow> Some found
              | None \<Rightarrow> findLargeArrayField_loop cfg data rest pathStr)
         | _ \<Rightarrow> findLargeArrayField_loop cfg data rest pathStr)"

subsection \<open>\<^verbatim>\<open>limitItems\<close>\<close>

text \<open>\<^verbatim>\<open>xs.slice(0, end)\<close>: a negative \<^verbatim>\<open>end\<close> counts from the end of the array.\<close>

definition slice0 :: "'a list \<Rightarrow> int \<Rightarrow> 'a list" where
  "slice0 xs e =
     take (nat (if e < 0 then max (int (length xs) + e) 0 else min e (int (length xs)))) xs"

text \<open>The names every plain object inherits from \<^verbatim>\<open>Object.prototype\<close>.\<close>

definition Object_prototype_names :: "string list" where
  "Object_prototype_names =
     [''constructor'', ''__defineGetter__'', ''__defineSetter__'', ''hasOwnProperty'',
      ''__lookupGetter__'', ''__lookupSetter__'', ''isPrototypeOf'', ''propertyIsEnumerable'',
      ''toString'', ''valueOf'', ''__proto__'', ''toLocaleString'']"

text \<open>
  \<^verbatim>\<open>target[key]\<close> read: \<open>Inr None\<close> is \<^verbatim>\<open>undefined\<close>; reading a property
  of \<^verbatim>\<open>null\<close> throws.
\<close>

fun get_prop :: "json \<Rightarrow> string \<Rightarrow> failure + json option" where
  "get_prop JNull k = Inl TypeError"
| "get_prop (JObj kvs) k =
     (case map_of kvs k of
        Some v \<Rightarrow> Inr (Some v)
      | None \<Rightarrow> if k \<in> set Object_prototype_names then Inl Unmodelled else Inr None)"
| "get_prop v k = Inl Unmodelled"

text \<open>
  \<^verbatim>\<open>target[key] = v\<close> in strict code (a class body is): on \<^verbatim>\<open>null\<close> and on a
  primitive it throws; on an object an own property is overwritten in place and a new
  one is added last. A new name made of digits is enumerated among the indices, and
  \<^verbatim>\<open>__proto__\<close> is the prototype's setter: both are left to the runtime.
\<close>

fun set_prop :: "json \<Rightarrow> string \<Rightarrow> json \<Rightarrow> failure + json" where
  "set_prop JNull k v = Inl TypeError"
| "set_prop (JObj kvs) k v =
     (if k \<in> fst ` set kvs then Inr (JObj (obj_set kvs k v))
      else if k = ''__proto__'' \<or> (k \<noteq> [] \<and> list_all is_digit k) then Inl Unmodelled
      else Inr (JObj (obj_set kvs k v)))"
| "set_prop (JArr xs) k v = Inl Unmodelled"
| "set_prop prim k v = (if k = ''__proto__'' then Inl Unmodelled else Inl TypeError)"

text \<open>
  The walk \<^verbatim>\<open>target = target[pathParts[i]]\<close> and the assignment at its end. The
  source mutates the object the walk reached, which the clone shares; here the clone
  is rebuilt around it. With no part at all \<^verbatim>\<open>lastKey\<close> is \<^verbatim>\<open>undefined\<close>;
  using \<^verbatim>\<open>undefined\<close> as the target throws.
\<close>

fun put_own :: "json \<Rightarrow> string \<Rightarrow> json \<Rightarrow> json" where
  "put_own (JObj kvs) k v = JObj (obj_set kvs k v)"
| "put_own t k v = t"

fun assign_path :: "json \<Rightarrow> string list \<Rightarrow> json \<Rightarrow> failure + json" where
  "assign_path target [] v = set_prop target ''undefined'' v"
| "assign_path target [lastKey] v = set_prop target lastKey v"
| "assign_path target (k # k' # ks) v =
     (case get_prop target k of
        Inl e \<Rightarrow> Inl e
      | Inr None \<Rightarrow> Inl TypeError
      | Inr (Some child) \<Rightarrow>
          (case assign_path child (k' # ks) v of
             Inl e \<Rightarrow> Inl e
           | Inr child' \<Rightarrow> Inr (put_own target k child')))"

text \<open>
  \<^verbatim>\<open>limitItems\<close>. A match with no parent is the root array, so \<^verbatim>\<open>data.slice\<close> is
  then the array's own (\<open>root_match_is_array\<close>); the branches for other values are what
  \<^verbatim>\<open>data.slice\<close> would do on them. The deep clone is the text written and parsed
  back.
\<close>

definition unlimited :: "json \<Rightarrow> LimitItemsResult" where
  "unlimited data = \<lparr>limited = data, originalCount = 0, wasLimited = False, limitedField = None\<rparr>"

definition limitItems :: "JsonResponseConfig \<Rightarrow> json \<Rightarrow> failure + LimitItemsResult" where
  "limitItems cfg data =
     (if falsy data then Inr (unlimited data)
      else
        (case findLargeArrayField cfg data [] of
           None \<Rightarrow> Inr (unlimited data)
         | Some largeArrayInfo \<Rightarrow>
             (let count = int (length (array largeArrayInfo))
              in case parentObj largeArrayInfo of
                   None \<Rightarrow>
                     (case data of
                        JArr xs \<Rightarrow>
                          Inr \<lparr>limited = JArr (slice0 xs (maxItemsForContext cfg)),
                               originalCount = count, wasLimited = True,
                               limitedField = Some (fieldPath largeArrayInfo)\<rparr>
                      | JStr str \<Rightarrow>
                          Inr \<lparr>limited = JStr (slice0 str (maxItemsForContext cfg)),
                               originalCount = count, wasLimited = True,
                               limitedField = Some (fieldPath largeArrayInfo)\<rparr>
                      | _ \<Rightarrow> Inl TypeError)
                 | Some _ \<Rightarrow>
                     (case JSON_parse (JSON_stringify data 0) of
                        None \<Rightarrow> Inl SyntaxError
                      | Some limitedData \<Rightarrow>
                          (case assign_path limitedData
                                  (split_on CHR ''.'' (fieldPath largeArrayInfo))
                                  (JArr (slice0 (array largeArrayInfo) (maxItemsForContext cfg))) of
                             Inl e \<Rightarrow> Inl e
                           | Inr limitedData' \<Rightarrow>
                               Inr \<lparr>limited = limitedData', originalCount = count,
                                    wasLimited = True,
                                    limitedField = Some (fieldPath largeArrayInfo)\<rparr>)))))"

subsection \<open>\<^verbatim>\<open>generateJsonStructureTree\<close>\<close>

text \<open>The tree-drawing glyphs of the source, as their UTF-8 bytes.\<close>

definition glyph_corner :: string where
  "glyph_corner = [CHR 0xE2, CHR 0x94, CHR 0x94, CHR 0xE2, CHR 0x94, CHR 0x80,
                   CHR 0xE2, CHR 0x94, CHR 0x80, CHR '' '']"

definition glyph_tee :: string where
  "glyph_tee = [CHR 0xE2, CHR 0x94, CHR 0x9C, CHR 0xE2, CHR 0x94, CHR 0x80,
                CHR 0xE2, CHR 0x94, CHR 0x80, CHR '' '']"

definition glyph_bar :: string where
  "glyph_bar = [CHR 0xE2, CHR 0x94, CHR 0x82, CHR '' '', CHR '' '', CHR '' '']"

text \<open>
  \<open>tree_lines\<close> is the \<^verbatim>\<open>keys.forEach\<close> of the object branch: the lines pushed
  for the properties still to visit.
\<close>

fun generateJsonStructureTree :: "json \<Rightarrow> string \<Rightarrow> bool \<Rightarrow> string"
  and tree_lines :: "(string \<times> json) list \<Rightarrow> string \<Rightarrow> string list"
where
  "generateJsonStructureTree JNull pfx isLast = ''null''"
| "generateJsonStructureTree (JArr []) pfx isLast = ''[]''"
| "generateJsonStructureTree (JArr (firstItem # others)) pfx isLast =
     join [newline]
       [''Array['' @ show_nat (length (firstItem # others)) @ '']'',
        (if \<not> falsy firstItem \<and> typeof firstItem = ''object''
         then pfx @ glyph_corner @ ''[0]: ''
                @ generateJsonStructureTree firstItem
                    (pfx @ (if isLast then ''    '' else glyph_bar)) True
         else pfx @ glyph_corner @ ''[0]: '' @ typeof firstItem)]"
| "generateJsonStructureTree (JObj []) pfx isLast = ''{}''"
| "generateJsonStructureTree (JObj (kv # kvs)) pfx isLast =
     join [newline] (tree_lines (kv # kvs) pfx)"
| "generateJsonStructureTree (JBool b) pfx isLast = typeof (JBool b)"
| "generateJsonStructureTree (JNum n) pfx isLast = typeof (JNum n)"
| "generateJsonStructureTree JNegZero pfx isLast = typeof JNegZero"
| "generateJsonStructureTree (JDec neg s n) pfx isLast = typeof (JDec neg s n)"
| "generateJsonStructureTree (JStr s) pfx isLast = typeof (JStr s)"
| "tree_lines [] pfx = []"
| "tree_lines ((key, val) # rest) pfx =
     (let isLastKey = (rest = []);
          connector = (if isLastKey then glyph_corner else glyph_tee);
          childPrefix = pfx @ (if isLastKey then ''    '' else glyph_bar)
      in (case val of
            JNull \<Rightarrow> [pfx @ connector @ key @ '': null'']
          | JArr [] \<Rightarrow> [pfx @ connector @ key @ '': []'']
          | JArr (v0 # vs) \<Rightarrow>
              if typeof v0 = ''object''
              then [pfx @ connector @ key @ '': Array['' @ show_nat (length (v0 # vs)) @ '']'',
                    childPrefix @ glyph_corner @ ''[item]:'',
                    join [newline]
                      (map (\<lambda>l. childPrefix @ ''    '' @ l)
                         (split_on newline
                            (generateJsonStructureTree v0 (childPrefix @ ''    '') True)))]
              else [pfx @ connector @ key @ '': Array['' @ show_nat (length (v0 # vs))
                      @ ''] of '' @ typeof v0]
          | JObj kvs \<Rightarrow>
              [pfx @ connector @ key @ '':'',
               generateJsonStructureTree (JObj kvs) childPrefix True]
          | _ \<Rightarrow> [pfx @ connector @ key @ '': '' @ typeof val])
         @ tree_lines rest pfx)"

subsection \<open>\<^verbatim>\<open>formatFileSize\<close>\<close>

text \<open>
  \<^verbatim>\<open>(num / den).toFixed(1)\<close> for a byte count \<open>num\<close> below \<open>2 ^ 53\<close>, which
  a \<^verbatim>\<open>number\<close> holds exactly, and \<open>den\<close> a power of two: the quotient is then
  exact and below \<open>10 ^ 21\<close>, and \<^verbatim>\<open>toFixed\<close> picks the number of tenths
  nearest to it, the larger one at a tie, and writes it in plain digits. From
  \<open>10 ^ 21\<close> on \<^verbatim>\<open>toFixed\<close> writes an exponent instead: this definition,
  and \<open>formatFileSize\<close> with it, is the source's only for byte counts below
  \<open>2 ^ 53\<close>, and every property of them is stated for those.
\<close>

definition toFixed1 :: "nat \<Rightarrow> nat \<Rightarrow> string" where
  "toFixed1 num den =
     (let tenths = (20 * num + den) div (2 * den)
      in show_nat (tenths div 10) @ ''.'' @ show_nat (tenths mod 10))"

definition formatFileSize :: "nat \<Rightarrow> string" where
  "formatFileSize bytes =
     (if bytes < 1024 then show_nat bytes @ '' B''
      else if bytes < 1024 * 1024 then toFixed1 bytes 1024 @ '' KB''
      else toFixed1 bytes (1024 * 1024) @ '' MB'')"

subsection \<open>\<^verbatim>\<open>saveRawData\<close>\<close>

text \<open>
  \<^verbatim>\<open>path.join\<close> of the POSIX flavour: the arguments that are not empty, joined by
  \<^verbatim>\<open>/\<close> and normalised. \<open>normalizeString\<close> walks the segments between slashes
  (\<open>res\<close> holds those kept so far, the last one first): an empty segment and
  \<^verbatim>\<open>.\<close> are dropped, \<^verbatim>\<open>..\<close> removes the segment before it, or is kept where
  there is none to remove and the path is relative. A slash at the start and one at the
  end are kept.
\<close>

fun normalizeString :: "bool \<Rightarrow> string list \<Rightarrow> string list \<Rightarrow> string list" where
  "normalizeString allowAboveRoot res [] = rev res"
| "normalizeString allowAboveRoot res (seg # segs) =
     (if seg = [] \<or> seg = ''.'' then normalizeString allowAboveRoot res segs
      else if seg = ''..'' then
        (if res \<noteq> [] \<and> hd res \<noteq> ''..'' then normalizeString allowAboveRoot (tl res) segs
         else if allowAboveRoot then normalizeString allowAboveRoot (''..'' # res) segs
         else normalizeString allowAboveRoot res segs)
      else normalizeString allowAboveRoot (seg # res) segs)"

definition normalize :: "string \<Rightarrow> string" where
  "normalize p =
     (if p = [] then ''.''
      else (let isAbsolute = (hd p = CHR ''/'');
                trailingSeparator = (last p = CHR ''/'');
                q = join ''/'' (normalizeString (\<not> isAbsolute) [] (split_on CHR ''/'' p))
            in if q = [] then (if isAbsolute then ''/'' else if trailingSeparator then ''./'' else ''.'')
               else (if isAbsolute then ''/'' else []) @ q @ (if trailingSeparator then ''/'' else [])))"

definition path_join :: "string \<Rightarrow> string \<Rightarrow> string" where
  "path_join d f =
     (let joined = join ''/'' (filter (\<lambda>a. a \<noteq> []) [d, f])
      in if joined = [] then ''.'' else normalize joined)"

text \<open>
  The file system the handler writes to, as the state it passes along: the paths that
  exist, each a directory or a file with its content, and the paths at which creating
  or writing is refused. Both are held normalised and with no slash at the end,
  which is how \<open>fs_path\<close> reads the path a call is given; the empty path names
  nothing. \<^verbatim>\<open>mkdirSync\<close> with \<^verbatim>\<open>recursive\<close> is one entry for the directory. A
  file is written into the directory \<open>dirname\<close> gives for its path, which has to be
  there.
\<close>

datatype fs_node = Dir | File string

record filesystem =
  nodes :: "(string \<times> fs_node) list"
  denied :: "string list"

record SaveRawDataResult =
  filePath :: string
  fileSize :: nat

definition fs_path :: "string \<Rightarrow> string" where
  "fs_path p =
     (let q = normalize p
      in if q \<noteq> ''/'' \<and> last q = CHR ''/'' then butlast q else q)"

definition dirname :: "string \<Rightarrow> string" where
  "dirname p =
     (let d = join ''/'' (butlast (split_on CHR ''/'' p))
      in if d \<noteq> [] then d else if p \<noteq> [] \<and> hd p = CHR ''/'' then ''/'' else ''.'')"

definition existsSync :: "filesystem \<Rightarrow> string \<Rightarrow> bool" where
  "existsSync fs p = (p \<noteq> [] \<and> map_of (nodes fs) (fs_path p) \<noteq> None)"

definition mkdirSync :: "filesystem \<Rightarrow> string \<Rightarrow> failure + filesystem" where
  "mkdirSync fs p =
     (if p = [] then Inl (SystemError ''ENOENT'')
      else if fs_path p \<in> set (denied fs) then Inl (SystemError ''EACCES'')
      else (case map_of (nodes fs) (fs_path p) of
              Some (File c) \<Rightarrow> Inl (SystemError ''EEXIST'')
            | _ \<Rightarrow> Inr (fs\<lparr>nodes := (fs_path p, Dir) # nodes fs\<rparr>)))"

definition writeFileSync :: "filesystem \<Rightarrow> string \<Rightarrow> string \<Rightarrow> failure + filesystem" where
  "writeFileSync fs p content =
     (if p = [] then Inl (SystemError ''ENOENT'')
      else if fs_path p \<in> set (denied fs) then Inl (SystemError ''EACCES'')
      else (case map_of (nodes fs) (dirname (fs_path p)) of
              None \<Rightarrow> Inl (SystemError ''ENOENT'')
            | Some (File c) \<Rightarrow> Inl (SystemError ''ENOTDIR'')
            | Some Dir \<Rightarrow>
                (case map_of (nodes fs) (fs_path p) of
                   Some Dir \<Rightarrow> Inl (SystemError ''EISDIR'')
                 | _ \<Rightarrow> Inr (fs\<lparr>nodes := (fs_path p, File content) # nodes fs\<rparr>))))"

definition statSync_size :: "filesystem \<Rightarrow> string \<Rightarrow> failure + nat" where
  "statSync_size fs p =
     (case map_of (nodes fs) (fs_path p) of
        None \<Rightarrow> Inl (SystemError ''ENOENT'')
      | Some Dir \<Rightarrow> Inl Unmodelled
      | Some (File c) \<Rightarrow> Inr (length c))"

definition readFileSync :: "filesystem \<Rightarrow> string \<Rightarrow> failure + string" where
  "readFileSync fs p =
     (case map_of (nodes fs) (fs_path p) of
        None \<Rightarrow> Inl (SystemError ''ENOENT'')
      | Some Dir \<Rightarrow> Inl (SystemError ''EISDIR'')
      | Some (File c) \<Rightarrow> Inr c)"

text \<open>\<^verbatim>\<open>String(value)\<close> on a JSON value.\<close>

fun js_String :: "json \<Rightarrow> string" where
  "js_String JNull = ''null''"
| "js_String (JBool b) = (if b then ''true'' else ''false'')"
| "js_String (JNum n) = show_int n"
| "js_String JNegZero = ''0''"
| "js_String (JDec neg s n) = show_number neg s n"
| "js_String (JStr s) = s"
| "js_String (JArr xs) = join '','' (map (\<lambda>x. if x = JNull then [] else js_String x) xs)"
| "js_String (JObj kvs) = ''[object Object]''"

text \<open>
  The parameters are the entries of \<^verbatim>\<open>params\<close> in enumeration order; \<open>JNull\<close>
  stands for both \<^verbatim>\<open>null\<close> and \<^verbatim>\<open>undefined\<close>, which the filter treats alike.
  \<open>isoNow\<close> is what \<^verbatim>\<open>new Date().toISOString()\<close> returns at the call.
\<close>

definition is_filename_char :: "char \<Rightarrow> bool" where
  "is_filename_char c =
     ((97 \<le> (of_char c :: nat) \<and> (of_char c :: nat) \<le> 122)
      \<or> (65 \<le> (of_char c :: nat) \<and> (of_char c :: nat) \<le> 90)
      \<or> (48 \<le> (of_char c :: nat) \<and> (of_char c :: nat) \<le> 57)
      \<or> c = CHR ''_'' \<or> c = CHR ''='' \<or> c = CHR ''-'')"

definition relevantParams :: "(string \<times> json) list \<Rightarrow> string" where
  "relevantParams params =
     join ''_''
       (map (\<lambda>(key, val). key @ ''='' @ take 30 (js_String val))
          (filter (\<lambda>(key, val). key \<noteq> ''raw_data_save_dir'' \<and> val \<noteq> JNull) params))"

definition paramsStr :: "(string \<times> json) list option \<Rightarrow> string" where
  "paramsStr params =
     (case params of
        None \<Rightarrow> []
      | Some ps \<Rightarrow>
          if relevantParams ps \<noteq> []
          then ''_'' @ map (\<lambda>c. if is_filename_char c then c else CHR ''-'') (relevantParams ps)
          else [])"

definition timestamp :: "string \<Rightarrow> string" where
  "timestamp isoNow = map (\<lambda>c. if c = CHR '':'' \<or> c = CHR ''.'' then CHR ''-'' else c) isoNow"

definition filename :: "string \<Rightarrow> string \<Rightarrow> (string \<times> json) list option \<Rightarrow> string" where
  "filename isoNow toolName params = toolName @ paramsStr params @ ''_'' @ timestamp isoNow @ ''.json''"

definition saveRawData ::
    "filesystem \<Rightarrow> string \<Rightarrow> json \<Rightarrow> string \<Rightarrow> string \<Rightarrow> (string \<times> json) list option
      \<Rightarrow> (failure + SaveRawDataResult) \<times> filesystem" where
  "saveRawData fs isoNow data saveDir toolName params =
     (case (if \<not> existsSync fs saveDir then mkdirSync fs saveDir else Inr fs) of
        Inl e \<Rightarrow> (Inl e, fs)
      | Inr fs1 \<Rightarrow>
          (let path = path_join saveDir (filename isoNow toolName params);
               content = JSON_stringify data 2
           in case writeFileSync fs1 path content of
                Inl e \<Rightarrow> (Inl e, fs1)
              | Inr fs2 \<Rightarrow>
                  (case statSync_size fs2 path of
                     Inl e \<Rightarrow> (Inl e, fs2)
                   | Inr sz \<Rightarrow> (Inr \<lparr>filePath = path, fileSize = sz\<rparr>, fs2))))"

subsection \<open>\<^verbatim>\<open>formatResponse\<close>\<close>

record FormatResponseOptions =
  rawDataSaveDir :: "string option"
  toolName :: "string option"
  params :: "(string \<times> json) list option"

text \<open>\<^verbatim>\<open>s || dflt\<close> on an optional string: absent and empty are both falsy.\<close>

definition or_default :: "string option \<Rightarrow> string \<Rightarrow> string" where
  "or_default s dflt = (case s of None \<Rightarrow> dflt | Some t \<Rightarrow> if t = [] then dflt else t)"

definition backtick :: char where
  "backtick = CHR 0x60"

text \<open>The header of the data section.\<close>

definition data_header :: "JsonResponseConfig \<Rightarrow> LimitItemsResult \<Rightarrow> string" where
  "data_header cfg r =
     (if wasLimited r
        then ''### Data ('' @ [backtick]
               @ (case limitedField r of None \<Rightarrow> ''null'' | Some f \<Rightarrow> f) @ [backtick] @ '': ''
               @ show_int (maxItemsForContext cfg) @ ''/'' @ show_int (originalCount r) @ '' items)''
        else ''### Data'')"

text \<open>The lines pushed once archiving and limiting are done.\<close>

definition response_lines ::
    "JsonResponseConfig \<Rightarrow> string option \<Rightarrow> SaveRawDataResult option \<Rightarrow> LimitItemsResult
      \<Rightarrow> string list" where
  "response_lines cfg tool savedFileInfo r =
     [''## '' @ or_default tool ''Response'', []]
     @ (case savedFileInfo of
          None \<Rightarrow> []
        | Some info \<Rightarrow>
            [''> **Raw data saved to**: '' @ [backtick] @ filePath info @ [backtick] @ '' (''
               @ formatFileSize (fileSize info) @ '')'', []])
     @ (case limitedField r of
          None \<Rightarrow> []
        | Some f \<Rightarrow>
            if wasLimited r \<and> f \<noteq> []
            then [''> **Note**: '' @ [backtick] @ f @ [backtick] @ '' limited to ''
                    @ show_int (maxItemsForContext cfg) @ '' items ('' @ show_int (originalCount r)
                    @ '' total). ''
                    @ (if savedFileInfo \<noteq> None then ''Full data saved to file.''
                       else ''Provide '' @ [backtick] @ ''raw_data_save_dir'' @ [backtick]
                              @ '' parameter to save full response.''), []]
            else [])
     @ [''### JSON Structure'', [backtick, backtick, backtick],
        generateJsonStructureTree (limited r) [] True, [backtick, backtick, backtick], []]
     @ [data_header cfg r]
     @ [[backtick, backtick, backtick] @ ''json'', JSON_stringify (limited r) 2,
        [backtick, backtick, backtick]]"

text \<open>
  The result: one content item, its \<^verbatim>\<open>type\<close> and its \<^verbatim>\<open>text\<close>. The directory
  and the tool name are given when they are truthy, that is present and not empty.
\<close>

record TextContent =
  content_type :: string
  content_text :: string

record CallToolResult =
  content :: "TextContent list"

definition formatResponse ::
    "JsonResponseConfig \<Rightarrow> filesystem \<Rightarrow> string \<Rightarrow> json \<Rightarrow> FormatResponseOptions option
      \<Rightarrow> (failure + CallToolResult) \<times> filesystem" where
  "formatResponse cfg fs isoNow data options =
     (let saveDir = (case options of None \<Rightarrow> None | Some opts \<Rightarrow> rawDataSaveDir opts);
          tool = (case options of None \<Rightarrow> None | Some opts \<Rightarrow> toolName opts);
          ps = (case options of None \<Rightarrow> None | Some opts \<Rightarrow> params opts);
          saved = (case saveDir of
                     None \<Rightarrow> (Inr None, fs)
                   | Some dir \<Rightarrow>
                       if dir = [] then (Inr None, fs)
                       else (case saveRawData fs isoNow data dir (or_default tool ''response'') ps of
                               (Inl e, fs') \<Rightarrow> (Inl e, fs')
                             | (Inr info, fs') \<Rightarrow> (Inr (Some info), fs')))
      in case saved of
           (Inl e, fs') \<Rightarrow> (Inl e, fs')
         | (Inr savedFileInfo, fs') \<Rightarrow>
             (case limitItems cfg data of
                Inl e \<Rightarrow> (Inl e, fs')
              | Inr r \<Rightarrow>
                  (Inr \<lparr>content = [\<lparr>content_type = ''text'',
                                       content_text = join [newline] (response_lines cfg tool savedFileInfo r)\<rparr>]\<rparr>,
                   fs')))"

section \<open>The vocabulary of the properties\<close>

text \<open>
  How a JSON value of the runtime is held here, which is in one way only: no object
  has two properties of one name; a \<open>JNum\<close> has at most 21 digits; the last digit of
  a \<open>JDec\<close> is not zero, and it is not an integer of at most 21 digits, which is a
  \<open>JNum\<close>. This fixes how a value is written down, not which values there are.
\<close>

fun json_wf :: "json \<Rightarrow> bool" where
  "json_wf (JArr xs) = list_all json_wf xs"
| "json_wf (JObj kvs) = (distinct (map fst kvs) \<and> list_all (\<lambda>kv. json_wf (snd kv)) kvs)"
| "json_wf (JNum i) = (- (10 ^ 21) < i \<and> i < 10 ^ 21)"
| "json_wf (JDec neg s n) =
     (s mod 10 \<noteq> 0 \<and> \<not> (int (length (show_nat s)) \<le> n \<and> n \<le> 21))"
| "json_wf v = True"

text \<open>The values with no \<^verbatim>\<open>-0\<close> in them.\<close>

fun no_neg_zero :: "json \<Rightarrow> bool" where
  "no_neg_zero JNegZero = False"
| "no_neg_zero (JArr xs) = list_all no_neg_zero xs"
| "no_neg_zero (JObj kvs) = list_all (\<lambda>kv. no_neg_zero (snd kv)) kvs"
| "no_neg_zero v = True"

text \<open>
  What the spec means by a one-decimal rendering of \<open>num / den\<close>: the digits of a whole
  part, a point and one digit, for the number of tenths nearest to the quotient (the
  larger at a tie).
\<close>

definition nearest_tenths :: "nat \<Rightarrow> nat \<Rightarrow> nat \<Rightarrow> bool" where
  "nearest_tenths num den t =
     (2 * den * t \<le> 20 * num + den \<and> 20 * num + den < 2 * den * t + 2 * den)"

definition one_decimal :: "nat \<Rightarrow> nat \<Rightarrow> string \<Rightarrow> bool" where
  "one_decimal num den s =
     (\<exists>t. nearest_tenths num den t \<and> s = show_nat (t div 10) @ [CHR ''.'', digit_char (t mod 10)])"

text \<open>
  The arrays a search that never enters an array can see: the root if it is an array,
  and the array-valued fields of the objects reached through object fields alone.
  \<open>all_arrays\<close> are the arrays at any place, those inside arrays too.
\<close>

fun field_arrays :: "json \<Rightarrow> json list list" where
  "field_arrays (JArr xs) = [xs]"
| "field_arrays (JObj kvs) = concat (map (\<lambda>kv. field_arrays (snd kv)) kvs)"
| "field_arrays v = []"

fun all_arrays :: "json \<Rightarrow> json list list" where
  "all_arrays (JArr xs) = xs # concat (map all_arrays xs)"
| "all_arrays (JObj kvs) = concat (map (\<lambda>kv. all_arrays (snd kv)) kvs)"
| "all_arrays v = []"

text \<open>What may follow a number: not a digit, and not the start of a fraction or an exponent.\<close>

definition after_number :: "string \<Rightarrow> bool" where
  "after_number rest =
     (rest = [] \<or> (\<not> is_digit (hd rest) \<and> hd rest \<noteq> CHR ''.'' \<and> hd rest \<noteq> CHR ''e''
                    \<and> hd rest \<noteq> CHR ''E''))"

text \<open>
  What the serialiser's output looks like to the parser: blank runs (\<open>ws_only\<close>), the
  first character of a value (\<open>value_start\<close>), and what may follow a value
  (\<open>delim\<close>). \<open>fuel_of\<close> bounds the fuel the descent into a value uses.
\<close>

definition ws_only :: "string \<Rightarrow> bool" where
  "ws_only w = list_all is_ws w"

definition value_start :: "char \<Rightarrow> bool" where
  "value_start c =
     (c = CHR ''n'' \<or> c = CHR ''t'' \<or> c = CHR ''f'' \<or> c = dquote \<or> c = CHR ''[''
      \<or> c = CHR ''{'' \<or> c = CHR ''-'' \<or> is_digit c)"

definition starts_value :: "string \<Rightarrow> bool" where
  "starts_value s = (s \<noteq> [] \<and> value_start (hd s))"

definition delim :: "string \<Rightarrow> bool" where
  "delim rest =
     (rest = [] \<or> is_ws (hd rest) \<or> hd rest = CHR '','' \<or> hd rest = CHR '']'' \<or> hd rest = CHR ''}'')"

fun fuel_of :: "json \<Rightarrow> nat" where
  "fuel_of (JArr xs) = 1 + sum_list (map (\<lambda>x. 1 + fuel_of x) xs)"
| "fuel_of (JObj kvs) = 1 + sum_list (map (\<lambda>kv. 1 + fuel_of (snd kv)) kvs)"
| "fuel_of v = 1"

text \<open>
  The subtree at a key path, through own properties of objects, and the value with the
  subtree at a key path replaced. \<open>located_keys\<close> follows the locator's traversal and
  gives the located field as the keys leading to it (none for a root array).
\<close>

fun value_at :: "json \<Rightarrow> string list \<Rightarrow> json option" where
  "value_at v [] = Some v"
| "value_at (JObj kvs) (k # ks) = (case map_of kvs k of Some c \<Rightarrow> value_at c ks | None \<Rightarrow> None)"
| "value_at v (k # ks) = None"

fun replace_at :: "json \<Rightarrow> string list \<Rightarrow> json \<Rightarrow> json" where
  "replace_at v [] new = new"
| "replace_at (JObj kvs) (k # ks) new =
     JObj (map (\<lambda>kc. if fst kc = k then (fst kc, replace_at (snd kc) ks new) else kc) kvs)"
| "replace_at v (k # ks) new = v"

fun located_keys :: "JsonResponseConfig \<Rightarrow> json \<Rightarrow> string list option"
  and located_keys_loop :: "JsonResponseConfig \<Rightarrow> (string \<times> json) list \<Rightarrow> string list option"
where
  "located_keys cfg (JArr xs) = (if int (length xs) > maxItemsForContext cfg then Some [] else None)"
| "located_keys cfg (JObj kvs) = located_keys_loop cfg kvs"
| "located_keys cfg v = None"
| "located_keys_loop cfg [] = None"
| "located_keys_loop cfg ((key, val) # rest) =
     (case val of
        JArr xs \<Rightarrow>
          if int (length xs) > maxItemsForContext cfg then Some [key]
          else located_keys_loop cfg rest
      | JObj kvs \<Rightarrow>
          (case located_keys cfg (JObj kvs) of
             Some ks \<Rightarrow> Some (key # ks)
           | None \<Rightarrow> located_keys_loop cfg rest)
      | _ \<Rightarrow> located_keys_loop cfg rest)"

text \<open>The path string the locator builds for a key path below a path string.\<close>

fun path_of :: "string \<Rightarrow> string list \<Rightarrow> string" where
  "path_of p [] = p"
| "path_of p (k # ks) = path_of (if p \<noteq> [] then p @ ''.'' @ k else k) ks"

text \<open>The locator's result for the array \<open>xs\<close> found at the keys \<open>ks\<close> below the path \<open>p\<close>.\<close>

definition hit ::
    "JsonResponseConfig \<Rightarrow> string \<Rightarrow> string list \<Rightarrow> json list \<Rightarrow> LargeArrayFieldResult option \<Rightarrow> bool" where
  "hit cfg p ks xs r =
     (int (length xs) > maxItemsForContext cfg
      \<and> (\<exists>par. r = Some \<lparr>fieldPath = path_of p ks, array = xs, parentObj = Some par,
                          fieldKey = last ks\<rparr>))"

section \<open>Properties\<close>

subsection \<open>Byte sizes\<close>

lemma show_nat_digit: "n < 10 \<Longrightarrow> show_nat n = [digit_char n]"
  by (simp add: show_nat.simps)

lemma nearest_tenths_div:
  "0 < den \<Longrightarrow> nearest_tenths num den ((20 * num + den) div (2 * den))"
proof -
  assume d: "0 < den"
  define a where "a = 20 * num + den"
  define b where "b = 2 * den"
  have bpos: "0 < b" using d by (simp add: b_def)
  have "a = b * (a div b) + a mod b" by simp
  moreover have "a mod b < b" using bpos by simp
  ultimately have "b * (a div b) \<le> a \<and> a < b * (a div b) + b" by linarith
  then show ?thesis by (simp add: nearest_tenths_def a_def b_def)
qed

lemma toFixed1_one_decimal: "0 < den \<Longrightarrow> one_decimal num den (toFixed1 num den)"
  unfolding one_decimal_def toFixed1_def Let_def
  by (rule exI [of _ "(20 * num + den) div (2 * den)"])
     (simp add: show_nat_digit nearest_tenths_div)

lemmas formatFileSize_eval = formatFileSize_def toFixed1_def show_nat.simps digit_char_def

text \<open>
  C9: \<^verbatim>\<open>formatFileSize\<close> has three bands on binary multiples. For every byte
  count \<open>n\<close> (an integer below \<open>2 ^ 53\<close>, as a file's size is): below 1024 it is
  printed as it is, followed by \<^verbatim>\<open> B\<close>; from 1024 up to, not including, 1048576
  it is the one-decimal rendering of \<open>n / 1024\<close> followed by \<^verbatim>\<open> KB\<close>; from 1048576
  on it is the one-decimal rendering of \<open>n / 1048576\<close> followed by \<^verbatim>\<open> MB\<close>. So
  500 gives \<^verbatim>\<open>500 B\<close>, 1024 gives \<^verbatim>\<open>1.0 KB\<close>, 2560 gives \<^verbatim>\<open>2.5 KB\<close> and
  1048576 gives \<^verbatim>\<open>1.0 MB\<close>.
\<close>

theorem formatFileSize_bands:
  assumes "n < 2 ^ 53"
  shows
  "(n < 1024 \<longrightarrow> formatFileSize n = show_nat n @ '' B'')
   \<and> (1024 \<le> n \<and> n < 1048576 \<longrightarrow>
        (\<exists>x. one_decimal n 1024 x \<and> formatFileSize n = x @ '' KB''))
   \<and> (1048576 \<le> n \<longrightarrow>
        (\<exists>x. one_decimal n 1048576 x \<and> formatFileSize n = x @ '' MB''))
   \<and> formatFileSize 500 = ''500 B''
   \<and> formatFileSize 1024 = ''1.0 KB''
   \<and> formatFileSize 2560 = ''2.5 KB''
   \<and> formatFileSize 1048576 = ''1.0 MB''"
proof -
  have b: "n < 1024 \<longrightarrow> formatFileSize n = show_nat n @ '' B''"
    by (simp add: formatFileSize_def)
  have k: "1024 \<le> n \<and> n < 1048576 \<longrightarrow>
        (\<exists>x. one_decimal n 1024 x \<and> formatFileSize n = x @ '' KB'')"
    using toFixed1_one_decimal [of 1024 n] by (auto simp: formatFileSize_def)
  have m: "1048576 \<le> n \<longrightarrow>
        (\<exists>x. one_decimal n 1048576 x \<and> formatFileSize n = x @ '' MB'')"
    using toFixed1_one_decimal [of 1048576 n] by (auto simp: formatFileSize_def)
  have e1: "formatFileSize 500 = ''500 B''" by (simp add: formatFileSize_eval)
  have e2: "formatFileSize 1024 = ''1.0 KB''" by (simp add: formatFileSize_eval)
  have e3: "formatFileSize 2560 = ''2.5 KB''" by (simp add: formatFileSize_eval)
  have e4: "formatFileSize 1048576 = ''1.0 MB''" by (simp add: formatFileSize_eval)
  from b k m e1 e2 e3 e4 show ?thesis by blast
qed

theorem formatFileSize_bands_witness:
  "(1023 :: nat) < 2 ^ 53 \<and> (1075 :: nat) < 2 ^ 53 \<and> (2621440 :: nat) < 2 ^ 53
   \<and> formatFileSize 1023 = ''1023 B''
   \<and> (\<exists>x. one_decimal 1075 1024 x \<and> formatFileSize 1075 = x @ '' KB'')
   \<and> formatFileSize 1075 = ''1.0 KB''
   \<and> (\<exists>x. one_decimal 2621440 1048576 x \<and> formatFileSize 2621440 = x @ '' MB'')
   \<and> formatFileSize 2621440 = ''2.5 MB''"
proof -
  have "formatFileSize 1023 = show_nat 1023 @ '' B''"
    using formatFileSize_bands [of 1023] by simp
  moreover have "\<exists>x. one_decimal 1075 1024 x \<and> formatFileSize 1075 = x @ '' KB''"
    using formatFileSize_bands [of 1075] by simp
  moreover have "\<exists>x. one_decimal 2621440 1048576 x \<and> formatFileSize 2621440 = x @ '' MB''"
    using formatFileSize_bands [of 2621440] by simp
  moreover have "show_nat 1023 = ''1023''" by (simp add: formatFileSize_eval)
  moreover have "formatFileSize 1075 = ''1.0 KB''" by (simp add: formatFileSize_eval)
  moreover have "formatFileSize 2621440 = ''2.5 MB''" by (simp add: formatFileSize_eval)
  ultimately show ?thesis by simp
qed

subsection \<open>The locator and the limiter\<close>

lemma field_arrays_subset: "set (field_arrays v) \<subseteq> set (all_arrays v)"
  by (induction v rule: field_arrays.induct) auto

lemma find_none_aux:
  "(\<forall>xs \<in> set (field_arrays v). int (length xs) \<le> maxItemsForContext cfg)
     \<Longrightarrow> findLargeArrayField cfg v p = None"
  "(\<forall>kv \<in> set kvs. \<forall>xs \<in> set (field_arrays (snd kv)). int (length xs) \<le> maxItemsForContext cfg)
     \<Longrightarrow> findLargeArrayField_loop cfg d kvs p = None"
proof (induction cfg v p and cfg d kvs p rule: findLargeArrayField_findLargeArrayField_loop.induct)
  case (10 cfg data key val rest pathStr)
  then show ?case by (cases val) (auto simp: Let_def)
qed auto

lemma find_parent_aux:
  "findLargeArrayField cfg v p = Some info \<Longrightarrow> parentObj info = None \<Longrightarrow> (\<exists>xs. v = JArr xs)"
  "findLargeArrayField_loop cfg d kvs p = Some info \<Longrightarrow> parentObj info \<noteq> None"
proof (induction cfg v p and cfg d kvs p rule: findLargeArrayField_findLargeArrayField_loop.induct)
  case (10 cfg data key val rest pathStr)
  then show ?case by (cases val) (auto simp: Let_def split: if_splits option.splits)
qed (auto split: if_splits)

lemma root_match_is_array:
  "findLargeArrayField cfg data [] = Some info \<Longrightarrow> parentObj info = None \<Longrightarrow> \<exists>xs. data = JArr xs"
  by (rule find_parent_aux(1))

text \<open>
  C1: the claim is that every depth-1 field is checked before any nested object is
  entered, so that with \<^verbatim>\<open>smallArray\<close> (5), \<^verbatim>\<open>largeArray1\<close> (15) and
  \<^verbatim>\<open>nested.largeArray2\<close> (20) under threshold 10 the located field is
  \<^verbatim>\<open>largeArray1\<close> in any key order. The loop of the source enters a nested object as
  soon as it meets it: with \<^verbatim>\<open>nested\<close> declared first the located field is
  \<^verbatim>\<open>nested.largeArray2\<close>.
\<close>

theorem findLargeArrayField_nested_first:
  "map_option fieldPath
     (findLargeArrayField \<lparr>maxItemsForContext = 10\<rparr>
        (JObj [(''nested'', JObj [(''largeArray2'', JArr (replicate 20 (JObj [(''id'', JNum 3)])))]),
               (''smallArray'', JArr (replicate 5 (JObj [(''id'', JNum 1)]))),
               (''largeArray1'', JArr (replicate 15 (JObj [(''id'', JNum 2)])))]) [])
   = Some ''nested.largeArray2''"
  by simp

text \<open>
  C4: for a root array \<open>V\<close> of length \<open>L\<close> and a threshold \<open>N\<close>: when \<open>L \<le> N\<close> the
  limiter returns \<open>V\<close> itself with \<^verbatim>\<open>wasLimited = false\<close>, \<^verbatim>\<open>originalCount = 0\<close>
  and no limited field; when \<open>L > N\<close> (\<open>N\<close> not negative, as the configuration
  requires) it returns the first \<open>N\<close> elements of \<open>V\<close>, which are \<open>min N L\<close> many, with
  \<^verbatim>\<open>originalCount = L\<close>, \<^verbatim>\<open>wasLimited = true\<close> and the limited field \<^verbatim>\<open>(root)\<close>.
\<close>

theorem limitItems_root_array:
  "(int (length V) \<le> maxItemsForContext cfg \<longrightarrow>
      limitItems cfg (JArr V)
        = Inr \<lparr>limited = JArr V, originalCount = 0, wasLimited = False, limitedField = None\<rparr>)
   \<and> (0 \<le> maxItemsForContext cfg \<and> int (length V) > maxItemsForContext cfg \<longrightarrow>
      (\<exists>xs. limitItems cfg (JArr V)
              = Inr \<lparr>limited = JArr xs, originalCount = int (length V), wasLimited = True,
                     limitedField = Some ''(root)''\<rparr>
            \<and> xs = take (nat (maxItemsForContext cfg)) V
            \<and> int (length xs) = min (maxItemsForContext cfg) (int (length V))))"
  by (auto simp: limitItems_def unlimited_def slice0_def min_def)

theorem limitItems_root_array_witness:
  "limitItems \<lparr>maxItemsForContext = 2\<rparr> (JArr [JNum 1, JNum 2])
     = Inr \<lparr>limited = JArr [JNum 1, JNum 2], originalCount = 0, wasLimited = False,
            limitedField = None\<rparr>
   \<and> limitItems \<lparr>maxItemsForContext = 2\<rparr> (JArr [JNum 1, JNum 2, JNum 3])
     = Inr \<lparr>limited = JArr [JNum 1, JNum 2], originalCount = 3, wasLimited = True,
            limitedField = Some ''(root)''\<rparr>"
  using limitItems_root_array [where cfg = "\<lparr>maxItemsForContext = 2\<rparr>" and V = "[JNum 1, JNum 2]"]
        limitItems_root_array
          [where cfg = "\<lparr>maxItemsForContext = 2\<rparr>" and V = "[JNum 1, JNum 2, JNum 3]"]
  by auto

text \<open>
  C5: the claim is that \<^verbatim>\<open>limitItems\<close> returns a result for every JSON value, keys
  with a \<^verbatim>\<open>.\<close> on the path to the located array included. For
  \<^verbatim>\<open>{"a.b": [11 items]}\<close> under threshold 10 the located path \<^verbatim>\<open>a.b\<close> is split
  into \<^verbatim>\<open>a\<close> and \<^verbatim>\<open>b\<close>; the clone has no property \<^verbatim>\<open>a\<close>, and assigning
  \<^verbatim>\<open>b\<close> on \<^verbatim>\<open>undefined\<close> throws a \<^verbatim>\<open>TypeError\<close>.
\<close>

theorem limitItems_dotted_key_throws:
  "limitItems \<lparr>maxItemsForContext = 10\<rparr> (JObj [(''a.b'', JArr (replicate 11 (JNum 7)))])
     = Inl TypeError"
  by code_simp

text \<open>
  C3: the claim is that, whenever the located array is a field of an object, the
  result is the input with that one field cut to its first \<open>N\<close> elements and every
  other subtree equal to the input's. For \<^verbatim>\<open>{"a": {"b": 1}, "a.b": [11 items]}\<close>
  under threshold 10 the located field is \<^verbatim>\<open>a.b\<close>, but the walk along the split
  path reaches \<^verbatim>\<open>a\<close> and overwrites its \<^verbatim>\<open>b\<close>: the oversized field keeps its 11
  elements and another subtree is changed.
\<close>

theorem limitItems_dotted_key_wrong_field:
  "limitItems \<lparr>maxItemsForContext = 10\<rparr>
     (JObj [(''a'', JObj [(''b'', JNum 1)]), (''a.b'', JArr (replicate 11 (JNum 7)))])
   = Inr \<lparr>limited = JObj [(''a'', JObj [(''b'', JArr (replicate 10 (JNum 7)))]),
                          (''a.b'', JArr (replicate 11 (JNum 7)))],
          originalCount = 11, wasLimited = True, limitedField = Some ''a.b''\<rparr>"
  by code_simp

text \<open>
  The path is not given back either when the first of several keys is empty: the
  locator drops it from the path string, and the walk then adds a property to the
  root and leaves the located array as it was.
\<close>

lemma limitItems_empty_key_wrong_field:
  "limitItems \<lparr>maxItemsForContext = 2\<rparr> (JObj [([], JObj [(''x'', JArr [JNum 1, JNum 2, JNum 3])])])
   = Inr \<lparr>limited = JObj [([], JObj [(''x'', JArr [JNum 1, JNum 2, JNum 3])]),
                          (''x'', JArr [JNum 1, JNum 2])],
          originalCount = 3, wasLimited = True, limitedField = Some ''x''\<rparr>"
  by code_simp

text \<open>
  C6: the locator never searches inside arrays. If no array among \<open>field_arrays v\<close>
  (the root and the object fields) exceeds the threshold, whatever the arrays inside
  array elements hold, the locator finds nothing and the limiter returns the input
  unlimited. Nothing is found in \<^verbatim>\<open>null\<close>, a boolean, a number or a string, in the
  empty array (the threshold not being negative), or when no array at all exceeds the
  threshold.
\<close>

theorem locator_skips_arrays:
  "((\<forall>xs \<in> set (field_arrays v). int (length xs) \<le> maxItemsForContext cfg) \<longrightarrow>
      findLargeArrayField cfg v p = None
      \<and> limitItems cfg v
          = Inr \<lparr>limited = v, originalCount = 0, wasLimited = False, limitedField = None\<rparr>)
   \<and> findLargeArrayField cfg JNull p = None
   \<and> findLargeArrayField cfg (JBool b) p = None
   \<and> findLargeArrayField cfg (JNum n) p = None
   \<and> findLargeArrayField cfg JNegZero p = None
   \<and> findLargeArrayField cfg (JDec neg d e) p = None
   \<and> findLargeArrayField cfg (JStr s) p = None
   \<and> (0 \<le> maxItemsForContext cfg \<longrightarrow> findLargeArrayField cfg (JArr []) p = None)
   \<and> ((\<forall>xs \<in> set (all_arrays v). int (length xs) \<le> maxItemsForContext cfg) \<longrightarrow>
        findLargeArrayField cfg v p = None)"
proof -
  have a: "(\<forall>xs \<in> set (field_arrays v). int (length xs) \<le> maxItemsForContext cfg) \<longrightarrow>
      findLargeArrayField cfg v p = None
      \<and> limitItems cfg v
          = Inr \<lparr>limited = v, originalCount = 0, wasLimited = False, limitedField = None\<rparr>"
    using find_none_aux(1) [of v cfg] by (simp add: limitItems_def unlimited_def)
  have b: "(\<forall>xs \<in> set (all_arrays v). int (length xs) \<le> maxItemsForContext cfg) \<longrightarrow>
        findLargeArrayField cfg v p = None"
    using find_none_aux(1) [of v cfg p] field_arrays_subset [of v] by blast
  show ?thesis using a b by simp
qed

theorem locator_skips_arrays_witness:
  "[JNum 1, JNum 2, JNum 3] \<in> set (all_arrays (JObj [(''a'', JArr [JArr [JNum 1, JNum 2, JNum 3]])]))
   \<and> findLargeArrayField \<lparr>maxItemsForContext = 2\<rparr>
        (JObj [(''a'', JArr [JArr [JNum 1, JNum 2, JNum 3]])]) [] = None
   \<and> limitItems \<lparr>maxItemsForContext = 2\<rparr> (JObj [(''a'', JArr [JArr [JNum 1, JNum 2, JNum 3]])])
        = Inr \<lparr>limited = JObj [(''a'', JArr [JArr [JNum 1, JNum 2, JNum 3]])],
               originalCount = 0, wasLimited = False, limitedField = None\<rparr>
   \<and> findLargeArrayField \<lparr>maxItemsForContext = 2\<rparr> (JArr []) [] = None
   \<and> findLargeArrayField \<lparr>maxItemsForContext = 3\<rparr>
        (JObj [(''a'', JArr [JArr [JNum 1, JNum 2, JNum 3]])]) [] = None"
  using locator_skips_arrays
          [of "JObj [(''a'', JArr [JArr [JNum 1, JNum 2, JNum 3]])]" "\<lparr>maxItemsForContext = 2\<rparr>" "[]"]
        locator_skips_arrays
          [of "JObj [(''a'', JArr [JArr [JNum 1, JNum 2, JNum 3]])]" "\<lparr>maxItemsForContext = 3\<rparr>" "[]"]
  by simp

subsection \<open>The structure summary\<close>

text \<open>
  C8: the claim is that \<^verbatim>\<open>null\<close> is rendered as \<^verbatim>\<open>null\<close> in every position, as an
  array's element 0 too. The root and an object's field are; for the array
  \<^verbatim>\<open>[null]\<close> the element line is built from \<^verbatim>\<open>typeof firstItem\<close> and reads
  \<^verbatim>\<open>[0]: object\<close>.
\<close>

theorem generateJsonStructureTree_null_element:
  "generateJsonStructureTree (JArr [JNull]) [] True
     = ''Array[1]'' @ [newline] @ glyph_corner @ ''[0]: object''"
  by (simp add: show_nat.simps digit_char_def)

subsection \<open>Substrings\<close>

lemma str_includes_prefix: "prefix ys xs \<Longrightarrow> str_includes xs ys"
  by (cases xs) auto

lemma str_includes_append: "str_includes (xs @ ys @ zs) ys"
  by (induction xs) (auto simp: str_includes_prefix)

lemma str_includes_ex: "str_includes xs n \<longleftrightarrow> (\<exists>a b. xs = a @ n @ b)"
proof
  show "str_includes xs n \<Longrightarrow> \<exists>a b. xs = a @ n @ b"
  proof (induction xs)
    case Nil then show ?case by simp
  next
    case (Cons x xs)
    show ?case
    proof (cases "prefix n (x # xs)")
      case True
      then obtain b where "x # xs = n @ b" by (auto simp: prefix_def)
      then have "x # xs = [] @ n @ b" by simp
      then show ?thesis by blast
    next
      case False
      with Cons.prems have "str_includes xs n" by simp
      then obtain a b where "xs = a @ n @ b" using Cons.IH by blast
      then have "x # xs = (x # a) @ n @ b" by simp
      then show ?thesis by blast
    qed
  qed
next
  assume "\<exists>a b. xs = a @ n @ b"
  then show "str_includes xs n" using str_includes_append by blast
qed

lemma str_includes_mono: "str_includes xs n \<Longrightarrow> str_includes (ys @ xs @ zs) n"
proof -
  assume "str_includes xs n"
  then obtain a b where "xs = a @ n @ b" using str_includes_ex by blast
  then have "ys @ xs @ zs = (ys @ a) @ n @ (b @ zs)" by simp
  then show ?thesis using str_includes_append by metis
qed

lemma str_includes_join: "x \<in> set xs \<Longrightarrow> str_includes x n \<Longrightarrow> str_includes (join sep xs) n"
proof (induction sep xs rule: join.induct)
  case (1 sep) then show ?case by simp
next
  case (2 sep y)
  then show ?case by simp
next
  case (3 sep y z zs)
  show ?case
  proof (cases "x = y")
    case True
    then show ?thesis using 3(3) str_includes_mono [of y n "[]" "sep @ join sep (z # zs)"] by simp
  next
    case False
    then have "x \<in> set (z # zs)" using 3(2) by simp
    then have "str_includes (join sep (z # zs)) n" using 3 by blast
    then show ?thesis using str_includes_mono [of "join sep (z # zs)" n "y @ sep" "[]"] by simp
  qed
qed

lemma str_includes_refl: "str_includes x x"
  using str_includes_append [of "[]" x "[]"] by simp

subsection \<open>The archive's file name\<close>

lemma relevantParams_drop:
  "relevantParams (filter (\<lambda>(key, val). key \<noteq> ''raw_data_save_dir'') ps) = relevantParams ps"
proof -
  have "filter (\<lambda>(key, val). key \<noteq> ''raw_data_save_dir'' \<and> val \<noteq> JNull)
          (filter (\<lambda>(key, val). key \<noteq> ''raw_data_save_dir'') ps)
        = filter (\<lambda>(key, val). key \<noteq> ''raw_data_save_dir'' \<and> val \<noteq> JNull) ps"
    by (induction ps) auto
  then show ?thesis by (simp add: relevantParams_def)
qed

lemma paramsStr_featured_first:
  "paramsStr (Some [(''featured'', JBool True), (''first'', JNum 10)]) = ''_featured=true_first=10''"
  by (simp add: paramsStr_def relevantParams_def show_int_def show_nat.simps digit_char_def
        is_filename_char_def)

lemmas filename_eval =
  filename_def paramsStr_def relevantParams_def timestamp_def is_filename_char_def

text \<open>
  C7, as the code has it: with the parameters \<^verbatim>\<open>{featured: true, first: 10}\<close> the
  file name contains \<^verbatim>\<open>featured=true\<close> and \<^verbatim>\<open>first=10\<close>, whatever the tool name
  and the time. For every parameter mapping the parameter named
  \<^verbatim>\<open>raw_data_save_dir\<close> adds nothing to the file name: the name is the one derived
  from the mapping without it. With \<^verbatim>\<open>{featured: true, raw_data_save_dir:
  '/some/path'}\<close> and the tool \<^verbatim>\<open>test_tool\<close> the name does not contain
  \<^verbatim>\<open>raw_data_save_dir\<close>.
\<close>

theorem filename_params:
  "str_includes (filename isoNow tool (Some [(''featured'', JBool True), (''first'', JNum 10)]))
     ''featured=true''
   \<and> str_includes (filename isoNow tool (Some [(''featured'', JBool True), (''first'', JNum 10)]))
     ''first=10''
   \<and> filename isoNow tool (Some ps)
       = filename isoNow tool (Some (filter (\<lambda>(key, val). key \<noteq> ''raw_data_save_dir'') ps))
   \<and> \<not> str_includes
          (filename ''2025-01-02T03:04:05.678Z'' ''test_tool''
             (Some [(''featured'', JBool True), (''raw_data_save_dir'', JStr ''/some/path'')]))
          ''raw_data_save_dir''"
proof -
  have f: "filename isoNow tool (Some [(''featured'', JBool True), (''first'', JNum 10)])
        = (tool @ ''_'') @ ''featured=true'' @ (''_first=10_'' @ timestamp isoNow @ ''.json'')"
    by (simp add: filename_def paramsStr_featured_first)
  have g: "filename isoNow tool (Some [(''featured'', JBool True), (''first'', JNum 10)])
        = (tool @ ''_featured=true_'') @ ''first=10'' @ (''_'' @ timestamp isoNow @ ''.json'')"
    by (simp add: filename_def paramsStr_featured_first)
  have a: "str_includes (filename isoNow tool (Some [(''featured'', JBool True), (''first'', JNum 10)]))
     ''featured=true''"
    unfolding f by (rule str_includes_append)
  have b: "str_includes (filename isoNow tool (Some [(''featured'', JBool True), (''first'', JNum 10)]))
     ''first=10''"
    unfolding g by (rule str_includes_append)
  have c: "filename isoNow tool (Some ps)
       = filename isoNow tool (Some (filter (\<lambda>(key, val). key \<noteq> ''raw_data_save_dir'') ps))"
    by (simp add: filename_def paramsStr_def relevantParams_drop)
  have d: "\<not> str_includes
          (filename ''2025-01-02T03:04:05.678Z'' ''test_tool''
             (Some [(''featured'', JBool True), (''raw_data_save_dir'', JStr ''/some/path'')]))
          ''raw_data_save_dir''"
    by (simp add: filename_eval)
  from a b c d show ?thesis by simp
qed

text \<open>
  C7 as stated fails: a file name can contain \<^verbatim>\<open>raw_data_save_dir\<close>, here from the
  value of another parameter, while the parameter of that name is present and left
  out.
\<close>

theorem filename_raw_data_save_dir_counterexample:
  "str_includes
     (filename ''2025-01-02T03:04:05.678Z'' ''get_posts''
        (Some [(''query'', JStr ''raw_data_save_dir''), (''raw_data_save_dir'', JStr ''/some/path'')]))
     ''raw_data_save_dir''"
  by (simp add: filename_eval)

subsection \<open>The renderer and a failing archive\<close>

lemma response_lines_structure:
  "''### JSON Structure'' \<in> set (response_lines cfg tool saved r)"
  by (simp add: response_lines_def)

lemma response_lines_data:
  "data_header cfg r \<in> set (response_lines cfg tool saved r)"
  by (simp add: response_lines_def)

lemma data_header_includes: "str_includes (data_header cfg r) ''### Data''"
  by (rule str_includes_prefix) (simp add: data_header_def)

lemma response_lines_saved:
  "''> **Raw data saved to**: '' @ [backtick] @ filePath info @ [backtick] @ '' (''
      @ formatFileSize (fileSize info) @ '')'' \<in> set (response_lines cfg tool (Some info) r)"
  by (simp add: response_lines_def)

lemma response_text_structure:
  "str_includes (join [newline] (response_lines cfg tool saved r)) ''### JSON Structure''"
  using response_lines_structure str_includes_refl by (rule str_includes_join)

lemma response_text_data:
  "str_includes (join [newline] (response_lines cfg tool saved r)) ''### Data''"
  using response_lines_data data_header_includes by (rule str_includes_join)

text \<open>
  C2: the claim is that a failing archive does not stop the renderer: the structure
  and the data section are still produced, and the failure is told in the text.
  \<^verbatim>\<open>formatResponse\<close> calls \<^verbatim>\<open>saveRawData\<close> outside any \<^verbatim>\<open>try\<close>. For
  \<^verbatim>\<open>{"id": 1}\<close> with the archive directory \<^verbatim>\<open>/data\<close> and the tool name
  \<^verbatim>\<open>get_post\<close>, where the directory cannot be created, and likewise where the
  directory is there and the file cannot be written, the call ends in the error of the
  file system and returns no text.
\<close>

theorem formatResponse_archive_failure:
  "formatResponse \<lparr>maxItemsForContext = 10\<rparr> \<lparr>nodes = [], denied = [''/data'']\<rparr>
     ''2025-01-02T03:04:05.678Z'' (JObj [(''id'', JNum 1)])
     (Some \<lparr>rawDataSaveDir = Some ''/data'', toolName = Some ''get_post'', params = None\<rparr>)
   = (Inl (SystemError ''EACCES''), \<lparr>nodes = [], denied = [''/data'']\<rparr>)
   \<and> formatResponse \<lparr>maxItemsForContext = 10\<rparr>
       \<lparr>nodes = [(''/data'', Dir)], denied = [''/data/get_post_2025-01-02T03-04-05-678Z.json'']\<rparr>
       ''2025-01-02T03:04:05.678Z'' (JObj [(''id'', JNum 1)])
       (Some \<lparr>rawDataSaveDir = Some ''/data'', toolName = Some ''get_post'', params = None\<rparr>)
     = (Inl (SystemError ''EACCES''),
        \<lparr>nodes = [(''/data'', Dir)], denied = [''/data/get_post_2025-01-02T03-04-05-678Z.json'']\<rparr>)"
proof -
  have a: "formatResponse \<lparr>maxItemsForContext = 10\<rparr> \<lparr>nodes = [], denied = [''/data'']\<rparr>
     ''2025-01-02T03:04:05.678Z'' (JObj [(''id'', JNum 1)])
     (Some \<lparr>rawDataSaveDir = Some ''/data'', toolName = Some ''get_post'', params = None\<rparr>)
   = (Inl (SystemError ''EACCES''), \<lparr>nodes = [], denied = [''/data'']\<rparr>)"
    by code_simp
  have b: "formatResponse \<lparr>maxItemsForContext = 10\<rparr>
       \<lparr>nodes = [(''/data'', Dir)], denied = [''/data/get_post_2025-01-02T03-04-05-678Z.json'']\<rparr>
       ''2025-01-02T03:04:05.678Z'' (JObj [(''id'', JNum 1)])
       (Some \<lparr>rawDataSaveDir = Some ''/data'', toolName = Some ''get_post'', params = None\<rparr>)
     = (Inl (SystemError ''EACCES''),
        \<lparr>nodes = [(''/data'', Dir)], denied = [''/data/get_post_2025-01-02T03-04-05-678Z.json'']\<rparr>)"
    by code_simp
  from a b show ?thesis by (rule conjI)
qed

section \<open>Parsing back what the serialiser writes\<close>

lemma lt10: "(d::nat) < 10 \<longleftrightarrow> d = 0 \<or> d = 1 \<or> d = 2 \<or> d = 3 \<or> d = 4 \<or> d = 5 \<or> d = 6 \<or> d = 7 \<or> d = 8 \<or> d = 9"
  by presburger

lemma lt16: "(d::nat) < 16 \<longleftrightarrow> d = 0 \<or> d = 1 \<or> d = 2 \<or> d = 3 \<or> d = 4 \<or> d = 5 \<or> d = 6 \<or> d = 7 \<or> d = 8 \<or> d = 9
    \<or> d = 10 \<or> d = 11 \<or> d = 12 \<or> d = 13 \<or> d = 14 \<or> d = 15"
  by presburger

lemma is_digit_digit_char: "is_digit (digit_char d)"
proof -
  have "d mod 10 < 10" by simp
  then show ?thesis
    unfolding digit_char_def is_digit_def lt10
    by (elim disjE) simp_all
qed

lemma digit_val_digit_char: "d < 10 \<Longrightarrow> digit_val (digit_char d) = d"
  unfolding digit_char_def digit_val_def lt10
  by (elim disjE) simp_all

lemma digit_char_zero: "d < 10 \<Longrightarrow> digit_char d = CHR ''0'' \<longleftrightarrow> d = 0"
  unfolding digit_char_def lt10
  by (elim disjE) simp_all

lemma hex_val_hex_char: "d < 16 \<Longrightarrow> hex_val (hex_char d) = Some d"
  unfolding hex_char_def hex_val_def is_digit_def lt16
  by (elim disjE) simp_all

lemma show_nat_digits: "list_all is_digit (show_nat n)"
  by (induction n rule: show_nat.induct) (subst show_nat.simps, simp add: is_digit_digit_char)

lemma show_nat_nonempty: "show_nat n \<noteq> []"
  by (subst show_nat.simps) simp

lemma digits_to_nat_snoc: "digits_to_nat (ds @ [c]) = 10 * digits_to_nat ds + digit_val c"
  by (simp add: digits_to_nat_def)

lemma digits_to_nat_show_nat: "digits_to_nat (show_nat n) = n"
proof (induction n rule: show_nat.induct)
  case (1 n)
  show ?case
  proof (cases "n < 10")
    case True
    then show ?thesis by (simp add: show_nat_digit digits_to_nat_def digit_val_digit_char)
  next
    case False
    then have "show_nat n = show_nat (n div 10) @ [digit_char (n mod 10)]"
      by (subst show_nat.simps) simp
    then show ?thesis using 1 False by (simp add: digits_to_nat_snoc digit_val_digit_char)
  qed
qed

lemma hd_show_nat_zero: "hd (show_nat n) = CHR ''0'' \<longleftrightarrow> n = 0"
proof (induction n rule: show_nat.induct)
  case (1 n)
  show ?case
  proof (cases "n < 10")
    case True
    then show ?thesis by (simp add: show_nat_digit digit_char_zero)
  next
    case False
    then have "show_nat n = show_nat (n div 10) @ [digit_char (n mod 10)]"
      by (subst show_nat.simps) simp
    then have "hd (show_nat n) = hd (show_nat (n div 10))"
      by (simp add: show_nat_nonempty)
    then show ?thesis using 1 False by simp
  qed
qed

lemma span_all:
  "list_all P xs \<Longrightarrow> rest = [] \<or> \<not> P (hd rest)
     \<Longrightarrow> takeWhile P (xs @ rest) = xs \<and> dropWhile P (xs @ rest) = rest"
  by (induction xs) (auto simp: takeWhile_eq_Nil_iff dropWhile_eq_self_iff)

lemma last_show_nat: "last (show_nat n) = digit_char (n mod 10)"
  by (subst show_nat.simps) simp

lemma length_show_nat: "0 < d \<Longrightarrow> n < 10 ^ d \<Longrightarrow> length (show_nat n) \<le> d"
proof (induction n arbitrary: d rule: show_nat.induct)
  case (1 n)
  show ?case
  proof (cases "n < 10")
    case True
    then show ?thesis using "1.prems" by (simp add: show_nat_digit)
  next
    case False
    obtain d' where d: "d = Suc d'" using "1.prems"(1) by (cases d) auto
    have "d' \<noteq> 0" using False "1.prems"(2) d by (cases d') auto
    moreover have "n div 10 < 10 ^ d'" using "1.prems"(2) d by (simp add: less_mult_imp_div_less mult.commute)
    ultimately have "length (show_nat (n div 10)) \<le> d'" using "1.IH" [OF False, of d'] by simp
    moreover have "show_nat n = show_nat (n div 10) @ [digit_char (n mod 10)]"
      using False by (subst show_nat.simps) simp
    ultimately show ?thesis using d by simp
  qed
qed

lemma dropWhile_zero_show_nat:
  "0 < n \<Longrightarrow> dropWhile (\<lambda>c. c = CHR ''0'') (show_nat n) = show_nat n"
  using hd_show_nat_zero [of n] show_nat_nonempty [of n] by (simp add: dropWhile_eq_self_iff)

lemma strip_show_nat:
  assumes "n mod 10 \<noteq> 0"
  shows "rev (dropWhile (\<lambda>c. c = CHR ''0'') (rev (show_nat n))) = show_nat n"
proof -
  have "last (show_nat n) \<noteq> CHR ''0''"
    using assms digit_char_zero [of "n mod 10"] by (simp add: last_show_nat)
  then have "hd (rev (show_nat n)) \<noteq> CHR ''0''"
    using show_nat_nonempty [of n] by (simp add: hd_rev)
  then have "dropWhile (\<lambda>c. c = CHR ''0'') (rev (show_nat n)) = rev (show_nat n)"
    by (simp add: dropWhile_eq_self_iff)
  then show ?thesis by simp
qed

lemma trailing_split:
  "\<exists>j. ds = rev (dropWhile (\<lambda>c. c = CHR ''0'') (rev ds)) @ replicate j CHR ''0''"
proof -
  let ?P = "\<lambda>c. c = CHR ''0''"
  let ?t = "takeWhile ?P (rev ds)"
  have "\<forall>y \<in> set ?t. y = CHR ''0''" by (auto dest: set_takeWhileD)
  then have t: "replicate (length ?t) CHR ''0'' = ?t" by (rule replicate_length_same)
  have "rev (dropWhile ?P (rev ds)) @ rev ?t = rev (?t @ dropWhile ?P (rev ds))"
    by (simp only: rev_append)
  also have "\<dots> = rev (rev ds)" by (simp only: takeWhile_dropWhile_id)
  finally have "ds = rev (dropWhile ?P (rev ds)) @ rev ?t" by simp
  moreover have "rev ?t = replicate (length ?t) CHR ''0''" using t by (metis rev_replicate)
  ultimately have "ds = rev (dropWhile ?P (rev ds)) @ replicate (length ?t) CHR ''0''" by simp
  then show ?thesis by (rule exI)
qed

lemma digits_to_nat_zeros: "digits_to_nat (m @ replicate j CHR ''0'') = digits_to_nat m * 10 ^ j"
proof (induction j)
  case 0
  then show ?case by simp
next
  case (Suc j)
  have "m @ replicate (Suc j) CHR ''0'' = (m @ replicate j CHR ''0'') @ [CHR ''0'']"
    by (simp add: replicate_append_same)
  then show ?case using Suc by (simp only: digits_to_nat_snoc) (simp add: digit_val_def)
qed

lemma number_of_show_nat:
  assumes "0 < a" and "a < 10 ^ 21"
  shows "number_of neg (show_nat a) (int (length (show_nat a)))
           = JNum ((if neg then - 1 else 1) * int a)"
proof -
  let ?P = "\<lambda>c. c = CHR ''0''"
  let ?ds = "show_nat a"
  let ?m = "rev (dropWhile ?P (rev ?ds))"
  have sig: "dropWhile ?P ?ds = ?ds" using dropWhile_zero_show_nat [OF assms(1)] .
  obtain j where j: "?ds = ?m @ replicate j CHR ''0''" using trailing_split [of ?ds] by blast
  have len: "length ?ds = length ?m + j" using arg_cong [OF j, of length] by simp
  have val: "digits_to_nat ?m * 10 ^ j = a"
    using digits_to_nat_zeros [of ?m j] j digits_to_nat_show_nat [of a] by simp
  have l21: "length ?ds \<le> 21" using length_show_nat [of 21 a] assms(2) by simp
  have ne: "?ds \<noteq> []" by (rule show_nat_nonempty)
  have nj: "nat (int (length ?ds) - int (length ?m)) = j" using len by simp
  show ?thesis
    unfolding number_of_def Let_def sig
    using ne len l21 val nj by simp
qed

lemma number_of_zero: "number_of False ''0'' p = JNum 0"
  by (simp add: number_of_def)

lemma number_of_digits:
  assumes "s mod 10 \<noteq> 0"
      and "\<not> (int (length (show_nat s)) \<le> p - int z \<and> p - int z \<le> 21)"
  shows "number_of neg (replicate z CHR ''0'' @ show_nat s) p = JDec neg s (p - int z)"
proof -
  let ?P = "\<lambda>c. c = CHR ''0''"
  have s0: "0 < s" using assms(1) by (cases s) auto
  have "dropWhile ?P (replicate z CHR ''0'' @ show_nat s) = dropWhile ?P (show_nat s)"
    by (induction z) auto
  then have sig: "dropWhile ?P (replicate z CHR ''0'' @ show_nat s) = show_nat s"
    using dropWhile_zero_show_nat [OF s0] by simp
  have m: "rev (dropWhile ?P (rev (show_nat s))) = show_nat s" using strip_show_nat [OF assms(1)] .
  show ?thesis
    unfolding number_of_def Let_def sig m
    using assms(2) show_nat_nonempty [of s] by (simp add: digits_to_nat_show_nat)
qed

lemma parse_int_part_digits:
  assumes "list_all is_digit ds" and "ds \<noteq> []" and "hd ds = CHR ''0'' \<longrightarrow> ds = ''0''"
      and "rest = [] \<or> \<not> is_digit (hd rest)"
  shows "parse_int_part (ds @ rest) = Some (ds, rest)"
proof -
  obtain c cs where cs: "ds = c # cs" using assms(2) by (cases ds) auto
  have sp: "takeWhile is_digit (ds @ rest) = ds \<and> dropWhile is_digit (ds @ rest) = rest"
    using span_all [OF assms(1,4)] .
  show ?thesis
  proof (cases "c = CHR ''0''")
    case True
    then have "ds = ''0''" using assms(3) cs by simp
    then show ?thesis by (simp add: parse_int_part_def)
  next
    case False
    have "is_digit c" using assms(1) cs by simp
    then have "parse_int_part (ds @ rest)
                 = Some (takeWhile is_digit (ds @ rest), dropWhile is_digit (ds @ rest))"
      using False cs by (simp add: parse_int_part_def)
    then show ?thesis using sp by simp
  qed
qed

lemma parse_frac_none: "rest = [] \<or> hd rest \<noteq> CHR ''.'' \<Longrightarrow> parse_frac rest = Some ([], rest)"
  by (cases rest) (auto simp: parse_frac_def)

lemma parse_frac_digits:
  assumes "list_all is_digit ds" and "ds \<noteq> []" and "rest = [] \<or> \<not> is_digit (hd rest)"
  shows "parse_frac (CHR ''.'' # ds @ rest) = Some (ds, rest)"
  using span_all [OF assms(1,3)] assms(2) by (simp add: parse_frac_def)

lemma parse_exp_none:
  "rest = [] \<or> (hd rest \<noteq> CHR ''e'' \<and> hd rest \<noteq> CHR ''E'') \<Longrightarrow> parse_exp rest = Some (0, rest)"
  by (cases rest) (auto simp: parse_exp_def)

lemma parse_exp_show:
  assumes "rest = [] \<or> \<not> is_digit (hd rest)"
  shows "parse_exp (CHR ''e'' # (if e < 0 then ''-'' else ''+'') @ show_nat (nat (abs e)) @ rest)
           = Some (e, rest)"
proof -
  have sp: "\<And>a. takeWhile is_digit (show_nat a @ rest) = show_nat a
                \<and> dropWhile is_digit (show_nat a @ rest) = rest"
    using span_all [OF show_nat_digits assms] .
  show ?thesis
  proof (cases "e < 0")
    case True
    then show ?thesis
      using sp [of "nat (- e)"] show_nat_nonempty [of "nat (- e)"]
      by (simp add: parse_exp_def Let_def digits_to_nat_show_nat)
  next
    case False
    then show ?thesis
      using sp [of "nat e"] show_nat_nonempty [of "nat e"]
      by (simp add: parse_exp_def Let_def digits_to_nat_show_nat)
  qed
qed

lemma after_number_cases:
  "after_number rest \<Longrightarrow>
     (rest = [] \<or> \<not> is_digit (hd rest)) \<and> (rest = [] \<or> hd rest \<noteq> CHR ''.'')
     \<and> (rest = [] \<or> (hd rest \<noteq> CHR ''e'' \<and> hd rest \<noteq> CHR ''E''))"
  by (auto simp: after_number_def)

lemma parse_numeral_show_nat:
  assumes "after_number rest" and "a < 10 ^ 21" and "neg \<longrightarrow> 0 < a"
  shows "parse_numeral neg (show_nat a @ rest) = Some (JNum ((if neg then - 1 else 1) * int a), rest)"
proof -
  note r = after_number_cases [OF assms(1)]
  have z: "hd (show_nat a) = CHR ''0'' \<longrightarrow> show_nat a = ''0''"
    using hd_show_nat_zero [of a] by (auto simp: show_nat_digit digit_char_def)
  have ip: "parse_int_part (show_nat a @ rest) = Some (show_nat a, rest)"
    using parse_int_part_digits [OF show_nat_digits show_nat_nonempty z] r by blast
  have fp: "parse_frac rest = Some ([], rest)" using parse_frac_none r by blast
  have ep: "parse_exp rest = Some (0, rest)" using parse_exp_none r by blast
  have nu: "number_of neg (show_nat a) (int (length (show_nat a)))
              = JNum ((if neg then - 1 else 1) * int a)"
  proof (cases "a = 0")
    case True
    then show ?thesis using assms(3) number_of_zero by (simp add: show_nat_digit digit_char_def)
  next
    case False
    then show ?thesis using number_of_show_nat [of a neg] assms(2) by simp
  qed
  show ?thesis using ip fp ep nu by (simp add: parse_numeral_def)
qed

lemma parse_number_show_int:
  assumes "after_number rest" and "- (10 ^ 21) < i" and "i < 10 ^ 21"
  shows "parse_number (show_int i @ rest) = Some (JNum i, rest)"
proof (cases "i < 0")
  case True
  have a: "nat (- i) < 10 ^ 21" using assms(2) True by (simp add: nat_less_iff)
  have "parse_numeral True (show_nat (nat (- i)) @ rest)
          = Some (JNum ((if True then - 1 else 1) * int (nat (- i))), rest)"
    using parse_numeral_show_nat [OF assms(1) a, of True] True by simp
  then show ?thesis using True by (simp add: parse_number_def show_int_def)
next
  case False
  have a: "nat i < 10 ^ 21" using assms(3) False by (simp add: nat_less_iff)
  obtain c cs where cs: "show_nat (nat i) = c # cs"
    using show_nat_nonempty [of "nat i"] by (cases "show_nat (nat i)") auto
  have "is_digit c" using show_nat_digits [of "nat i"] cs by simp
  then have cm: "c \<noteq> CHR ''-''" by (auto simp: is_digit_def)
  have "parse_numeral False (show_nat (nat i) @ rest)
          = Some (JNum ((if False then - 1 else 1) * int (nat i)), rest)"
    using parse_numeral_show_nat [OF assms(1) a, of False] by simp
  then show ?thesis using False cm cs by (simp add: parse_number_def show_int_def)
qed

lemma parse_numeral_show_dec:
  assumes wf: "s mod 10 \<noteq> 0" "\<not> (int (length (show_nat s)) \<le> n \<and> n \<le> 21)"
      and ar: "after_number rest"
  shows "parse_numeral neg (show_dec s n @ rest) = Some (JDec neg s n, rest)"
proof -
  let ?ds = "show_nat s"
  let ?k = "int (length ?ds)"
  note r = after_number_cases [OF ar]
  have s0: "0 < s" using wf(1) by (cases s) auto
  have dg: "list_all is_digit ?ds" by (rule show_nat_digits)
  have ne: "?ds \<noteq> []" by (rule show_nat_nonempty)
  have h0: "hd ?ds \<noteq> CHR ''0''" using hd_show_nat_zero [of s] s0 by simp
  have ep: "parse_exp rest = Some (0, rest)" using parse_exp_none r by blast
  consider (point) "0 < n" "n \<le> 21" | (small) "- 6 < n" "n \<le> 0" | (expo) "n \<le> - 6 \<or> 21 < n"
    by linarith
  then show ?thesis
  proof cases
    case point
    then have nk: "n < ?k" using wf(2) by simp
    let ?a = "take (nat n) ?ds" and ?b = "drop (nat n) ?ds"
    have sd: "show_dec s n = ?a @ CHR ''.'' # ?b"
      using point nk by (simp add: show_dec_def Let_def)
    have a: "list_all is_digit ?a" "?a \<noteq> []" "hd ?a \<noteq> CHR ''0''"
      using dg ne h0 point by (auto simp: list_all_iff dest: in_set_takeD)
    have b: "list_all is_digit ?b" "?b \<noteq> []"
      using dg nk point by (auto simp: list_all_iff dest: in_set_dropD)
    have ip: "parse_int_part (?a @ CHR ''.'' # ?b @ rest) = Some (?a, CHR ''.'' # ?b @ rest)"
      using parse_int_part_digits [OF a(1,2), of "CHR ''.'' # ?b @ rest"] a(3)
      by (simp add: is_digit_def)
    have fp: "parse_frac (CHR ''.'' # ?b @ rest) = Some (?b, rest)"
      using parse_frac_digits [OF b] r by blast
    have la: "int (length ?a) = n" using nk point by simp
    have nu: "number_of neg (?a @ ?b) (int (length ?a) + 0) = JDec neg s n"
      using number_of_digits [OF wf(1), of n 0 neg] wf(2) la by simp
    show ?thesis using sd ip fp ep nu by (simp add: parse_numeral_def)
  next
    case small
    let ?z = "replicate (nat (- n)) CHR ''0''"
    have sd: "show_dec s n = CHR ''0'' # CHR ''.'' # ?z @ ?ds"
      using small wf(2) by (simp add: show_dec_def Let_def)
    have ip: "parse_int_part (CHR ''0'' # CHR ''.'' # ?z @ ?ds @ rest)
                = Some (''0'', CHR ''.'' # ?z @ ?ds @ rest)"
      by (simp add: parse_int_part_def)
    have zd: "list_all is_digit (?z @ ?ds)" "?z @ ?ds \<noteq> []"
      using dg ne by (auto simp: list_all_iff is_digit_def)
    have fp: "parse_frac (CHR ''.'' # (?z @ ?ds) @ rest) = Some (?z @ ?ds, rest)"
      using parse_frac_digits [OF zd] r by blast
    have "''0'' @ ?z @ ?ds = replicate (Suc (nat (- n))) CHR ''0'' @ ?ds" by simp
    moreover have "number_of neg (replicate (Suc (nat (- n))) CHR ''0'' @ ?ds) 1 = JDec neg s n"
      using number_of_digits [OF wf(1), of 1 "Suc (nat (- n))" neg] wf(2) small by simp
    ultimately have nu: "number_of neg (''0'' @ ?z @ ?ds) (int (length ''0'') + 0) = JDec neg s n"
      by simp
    show ?thesis using sd ip fp ep nu by (simp add: parse_numeral_def)
  next
    case expo
    let ?e = "n - 1"
    let ?x = "CHR ''e'' # (if ?e < 0 then ''-'' else ''+'') @ show_nat (nat (abs ?e)) @ rest"
    obtain d tl where ds: "?ds = d # tl" using ne by (cases ?ds) auto
    have d: "is_digit d" "d \<noteq> CHR ''0''" and tld: "list_all is_digit tl"
      using dg h0 ds by simp_all
    have xp: "parse_exp ?x = Some (?e, rest)" using parse_exp_show r by blast
    have nu: "number_of neg (d # tl) (1 + ?e) = JDec neg s n"
      using number_of_digits [OF wf(1), of n 0 neg] wf(2) ds by simp
    have ipd: "\<And>t. t = [] \<or> \<not> is_digit (hd t) \<Longrightarrow> parse_int_part (d # t) = Some ([d], t)"
      using parse_int_part_digits [of "[d]"] d by simp
    show ?thesis
    proof (cases "tl = []")
      case True
      have sd: "show_dec s n @ rest = d # ?x"
        using expo ds True by (auto simp: show_dec_def Let_def)
      have ip: "parse_int_part (d # ?x) = Some ([d], ?x)" by (rule ipd) (simp add: is_digit_def)
      have fp: "parse_frac ?x = Some ([], ?x)" by (rule parse_frac_none) simp
      show ?thesis using ip fp xp nu True by (simp add: sd parse_numeral_def)
    next
      case False
      have sd: "show_dec s n @ rest = d # CHR ''.'' # tl @ ?x"
        using expo ds False by (auto simp: show_dec_def Let_def)
      have ip: "parse_int_part (d # CHR ''.'' # tl @ ?x) = Some ([d], CHR ''.'' # tl @ ?x)"
        by (rule ipd) (simp add: is_digit_def)
      have fp: "parse_frac (CHR ''.'' # tl @ ?x) = Some (tl, ?x)"
        by (rule parse_frac_digits [OF tld False]) (simp add: is_digit_def)
      show ?thesis using ip fp xp nu by (simp add: sd parse_numeral_def)
    qed
  qed
qed

lemma show_dec_starts: "show_dec s n \<noteq> [] \<and> is_digit (hd (show_dec s n))"
proof -
  let ?ds = "show_nat s"
  obtain d tl where ds: "?ds = d # tl" using show_nat_nonempty [of s] by (cases ?ds) auto
  have d: "is_digit d" using show_nat_digits [of s] ds by simp
  have z: "is_digit CHR ''0''" by (simp add: is_digit_def)
  show ?thesis
    using ds d z by (auto simp: show_dec_def Let_def hd_append)
qed

lemma parse_number_show_number:
  assumes "s mod 10 \<noteq> 0" "\<not> (int (length (show_nat s)) \<le> n \<and> n \<le> 21)" and "after_number rest"
  shows "parse_number (show_number neg s n @ rest) = Some (JDec neg s n, rest)"
proof -
  obtain c cs where cs: "show_dec s n = c # cs"
    using show_dec_starts [of s n] by (cases "show_dec s n") auto
  have "is_digit c" using show_dec_starts [of s n] cs by simp
  then have cm: "c \<noteq> CHR ''-''" by (auto simp: is_digit_def)
  show ?thesis
  proof (cases neg)
    case True
    then show ?thesis using parse_numeral_show_dec [OF assms, of True]
      by (simp add: parse_number_def show_number_def)
  next
    case False
    have "parse_number (c # cs @ rest) = parse_numeral False (c # cs @ rest)"
      using cm by (simp add: parse_number_def)
    then show ?thesis using False parse_numeral_show_dec [OF assms, of False] cs
      by (simp add: show_number_def)
  qed
qed

lemma hex4_of_char:
  assumes "(of_char c :: nat) < 32"
  shows "hex4 CHR ''0'' CHR ''0'' (hex_char (of_char c div 16)) (hex_char (of_char c mod 16))
          = Some (of_char c)"
proof -
  have z: "hex_val CHR ''0'' = Some 0" by (simp add: hex_val_def is_digit_def)
  have a: "hex_val (hex_char (of_char c div 16)) = Some (of_char c div 16)"
    using assms by (intro hex_val_hex_char) simp
  have b: "hex_val (hex_char (of_char c mod 16)) = Some (of_char c mod 16)"
    by (intro hex_val_hex_char) simp
  show ?thesis by (simp add: hex4_def z a b)
qed

lemma parse_chars_quote_char:
  assumes "parse_chars T = Some (cs, rest)"
  shows "parse_chars (quote_char c @ T) = Some (c # cs, rest)"
proof -
  obtain t ts where T: "T = t # ts" using assms by (cases T) auto
  consider (esc) "c = CHR 0x08 \<or> c = CHR 0x09 \<or> c = CHR 0x0A \<or> c = CHR 0x0C \<or> c = CHR 0x0D
                   \<or> c = dquote \<or> c = backslash"
    | (ctl) "\<not> (c = CHR 0x08 \<or> c = CHR 0x09 \<or> c = CHR 0x0A \<or> c = CHR 0x0C \<or> c = CHR 0x0D
                   \<or> c = dquote \<or> c = backslash)" "(of_char c :: nat) < 32"
    | (reg) "\<not> (c = CHR 0x08 \<or> c = CHR 0x09 \<or> c = CHR 0x0A \<or> c = CHR 0x0C \<or> c = CHR 0x0D
                   \<or> c = dquote \<or> c = backslash)" "\<not> (of_char c :: nat) < 32"
    by blast
  then show ?thesis
  proof cases
    case esc
    then show ?thesis
      using assms
      by (elim disjE) (simp_all add: quote_char_def unescape_def consc_def dquote_def backslash_def)
  next
    case ctl
    have lt: "(of_char c :: nat) < 128" using ctl(2) by simp
    have "quote_char c = [backslash, CHR ''u'', CHR ''0'', CHR ''0'',
              hex_char (of_char c div 16), hex_char (of_char c mod 16)]"
      using ctl by (simp add: quote_char_def)
    then show ?thesis
      using assms hex4_of_char [OF ctl(2)] lt
      by (simp add: consc_def dquote_def backslash_def)
  next
    case reg
    have "quote_char c = [c]" using reg by (simp add: quote_char_def)
    then show ?thesis using assms reg T by (simp add: consc_def)
  qed
qed

lemma parse_chars_quoted:
  "parse_chars (concat (map quote_char s) @ dquote # rest) = Some (s, rest)"
proof (induction s)
  case Nil
  show ?case by (cases rest) simp_all
next
  case (Cons c s)
  show ?case using parse_chars_quote_char [OF Cons] by simp
qed

lemma value_start_not_ws: "value_start c \<Longrightarrow> \<not> is_ws c"
  by (auto simp: value_start_def is_ws_def dquote_def is_digit_def)

lemma value_start_not_close:
  "value_start c \<Longrightarrow> c \<noteq> CHR '']'' \<and> c \<noteq> CHR ''}'' \<and> c \<noteq> CHR '','' \<and> c \<noteq> CHR '':''"
  by (auto simp: value_start_def dquote_def is_digit_def)

lemma skip_ws_ws: "ws_only w \<Longrightarrow> skip_ws (w @ s) = skip_ws s"
  by (induction w) (auto simp: ws_only_def skip_ws_def)

lemma skip_ws_id: "s = [] \<or> \<not> is_ws (hd s) \<Longrightarrow> skip_ws s = s"
  by (cases s) (auto simp: skip_ws_def)

lemma skip_ws_starts: "starts_value s \<Longrightarrow> skip_ws s = s"
  by (rule skip_ws_id) (auto simp: starts_value_def value_start_not_ws)

lemma starts_value_append: "starts_value s \<Longrightarrow> starts_value (s @ t)"
  by (cases s) (auto simp: starts_value_def)

lemma delim_after_number: "delim rest \<Longrightarrow> after_number rest"
  by (auto simp: delim_def after_number_def is_ws_def is_digit_def)

lemma show_int_starts: "starts_value (show_int i)"
proof (cases "i < 0")
  case True
  then show ?thesis by (simp add: show_int_def starts_value_def value_start_def)
next
  case False
  obtain c cs where cs: "show_nat (nat i) = c # cs"
    using show_nat_nonempty [of "nat i"] by (cases "show_nat (nat i)") auto
  have "is_digit c" using show_nat_digits [of "nat i"] cs by simp
  then show ?thesis using False cs by (simp add: show_int_def starts_value_def value_start_def)
qed

lemma show_number_starts: "starts_value (show_number neg s n)"
  using show_dec_starts [of s n]
  by (simp add: show_number_def starts_value_def value_start_def)

lemma ser_starts: "starts_value (SerializeJSONProperty g ind v)"
proof (cases v)
  case (JNum i)
  then show ?thesis using show_int_starts by simp
next
  case JNegZero
  then show ?thesis by (simp add: starts_value_def value_start_def is_digit_def)
next
  case (JDec neg s n)
  then show ?thesis using show_number_starts by simp
next
  case (JArr xs)
  then show ?thesis by (simp add: starts_value_def value_start_def wrap_partial_def Let_def)
next
  case (JObj kvs)
  then show ?thesis by (simp add: starts_value_def value_start_def wrap_partial_def Let_def)
qed (simp_all add: starts_value_def value_start_def QuoteJSONString_def)

lemma join_starts: "xs \<noteq> [] \<Longrightarrow> starts_value (hd xs) \<Longrightarrow> starts_value (join sep xs)"
  by (induction sep xs rule: join.induct) (auto simp: starts_value_append)

lemma parse_value_null: "parse_value (Suc n) (''null'' @ rest) = Some (JNull, rest)"
  by (simp add: parse_literal_def)

lemma parse_value_bool:
  "parse_value (Suc n) ((if b then ''true'' else ''false'') @ rest) = Some (JBool b, rest)"
  by (simp add: parse_literal_def dquote_def)

lemma parse_value_str:
  "parse_value (Suc n) (QuoteJSONString s @ rest) = Some (JStr s, rest)"
  using parse_chars_quoted [of s rest]
  by (simp add: QuoteJSONString_def dquote_def)

lemma parse_value_num:
  assumes "delim rest" and "- (10 ^ 21) < i" and "i < 10 ^ 21"
  shows "parse_value (Suc n) (show_int i @ rest) = Some (JNum i, rest)"
proof -
  obtain c cs where cs: "show_int i = c # cs"
    using show_int_starts [of i] by (cases "show_int i") (auto simp: starts_value_def)
  have "c = CHR ''-'' \<or> is_digit c"
  proof (cases "i < 0")
    case True then show ?thesis using cs by (simp add: show_int_def)
  next
    case False
    then have "show_nat (nat i) = c # cs" using cs by (simp add: show_int_def)
    then show ?thesis using show_nat_digits [of "nat i"] by simp
  qed
  then have nc: "c \<noteq> CHR ''n'' \<and> c \<noteq> CHR ''t'' \<and> c \<noteq> CHR ''f'' \<and> c \<noteq> dquote
                 \<and> c \<noteq> CHR ''['' \<and> c \<noteq> CHR ''{''"
    by (auto simp: is_digit_def dquote_def)
  have "parse_value (Suc n) (show_int i @ rest) = parse_number (show_int i @ rest)"
    using nc by (simp add: cs)
  then show ?thesis
    using parse_number_show_int [OF delim_after_number [OF assms(1)] assms(2,3)] by simp
qed

lemma parse_value_dec:
  assumes "delim rest" and "s mod 10 \<noteq> 0"
      and "\<not> (int (length (show_nat s)) \<le> n \<and> n \<le> 21)"
  shows "parse_value (Suc fuel) (show_number neg s n @ rest) = Some (JDec neg s n, rest)"
proof -
  obtain c cs where cs: "show_number neg s n = c # cs"
    using show_number_starts [of neg s n] by (cases "show_number neg s n") (auto simp: starts_value_def)
  have "c = CHR ''-'' \<or> is_digit c"
    using cs show_dec_starts [of s n] by (cases neg) (auto simp: show_number_def)
  then have nc: "c \<noteq> CHR ''n'' \<and> c \<noteq> CHR ''t'' \<and> c \<noteq> CHR ''f'' \<and> c \<noteq> dquote
                 \<and> c \<noteq> CHR ''['' \<and> c \<noteq> CHR ''{''"
    by (auto simp: is_digit_def dquote_def)
  have "parse_value (Suc fuel) (show_number neg s n @ rest) = parse_number (show_number neg s n @ rest)"
    using nc by (simp add: cs)
  then show ?thesis
    using parse_number_show_number [OF assms(2,3) delim_after_number [OF assms(1)]] by simp
qed

lemma delim_cons:
  "delim (CHR '','' # s)" "delim (CHR '']'' # s)" "delim (CHR ''}'' # s)"
  by (simp_all add: delim_def)

lemma delim_ws: "ws_only w \<Longrightarrow> delim s \<Longrightarrow> s \<noteq> [] \<Longrightarrow> delim (w @ s)"
  by (cases w) (auto simp: delim_def ws_only_def)

lemma parse_elems_join:
  assumes pv: "\<And>x n rest. x \<in> set xs \<Longrightarrow> fuel_of x \<le> n \<Longrightarrow> delim rest
                 \<Longrightarrow> parse_value n (f x @ rest) = Some (x, rest)"
      and st: "\<And>x. x \<in> set xs \<Longrightarrow> starts_value (f x)"
      and w1: "ws_only w1" and w2: "ws_only w2"
      and ne: "xs \<noteq> []"
      and fu: "sum_list (map (\<lambda>x. 1 + fuel_of x) xs) \<le> n"
  shows "parse_elems n (join (CHR '','' # w1) (map f xs) @ w2 @ CHR '']'' # rest) = Some (xs, rest)"
  using pv st ne fu
proof (induction xs arbitrary: n)
  case Nil
  then show ?case by simp
next
  case (Cons x xs)
  obtain n' where n: "n = Suc n'" using Cons.prems(4) by (cases n) auto
  have fx: "fuel_of x \<le> n'" using Cons.prems(4) n by simp
  show ?case
  proof (cases xs)
    case Nil
    let ?R = "w2 @ CHR '']'' # rest"
    have d: "delim ?R" using delim_ws [OF w2 delim_cons(2)] by simp
    have p: "parse_value n' (f x @ ?R) = Some (x, ?R)"
      using Cons.prems(1) [of x n' ?R] fx d by simp
    have s: "skip_ws ?R = CHR '']'' # rest"
      using skip_ws_ws [OF w2] by (simp add: skip_ws_id is_ws_def)
    show ?thesis using Nil n p s by simp
  next
    case (Cons y ys)
    let ?J = "join (CHR '','' # w1) (map f (y # ys)) @ w2 @ CHR '']'' # rest"
    let ?R = "CHR '','' # w1 @ ?J"
    have p: "parse_value n' (f x @ ?R) = Some (x, ?R)"
      using Cons.prems(1) [of x n' ?R] fx delim_cons(1) by simp
    have s: "skip_ws ?R = ?R" by (rule skip_ws_id) (simp add: is_ws_def)
    have sj: "starts_value ?J"
      using Cons.prems(2) [of y] Cons
      by (intro starts_value_append join_starts) auto
    have s2: "skip_ws (w1 @ ?J) = ?J"
      using skip_ws_ws [OF w1] skip_ws_starts [OF sj] by simp
    have fr: "sum_list (map (\<lambda>x. 1 + fuel_of x) xs) \<le> n'"
      using Cons.prems(4) n by simp
    have ih: "parse_elems n' ?J = Some (xs, rest)"
      using Cons.IH [of n'] Cons.prems(1,2) fr Cons by simp
    have "join (CHR '','' # w1) (map f (x # xs)) @ w2 @ CHR '']'' # rest = f x @ ?R"
      using Cons by simp
    then show ?thesis using n p s s2 ih by simp
  qed
qed

lemma member_starts: "starts_value (QuoteJSONString k @ t)"
  by (simp add: QuoteJSONString_def starts_value_def value_start_def)

lemma parse_member_head:
  assumes sv: "starts_value (fv @ R)" and sp: "ws_only sp"
      and pv: "parse_value n (fv @ R) = Some (v, R)"
  shows "parse_members (Suc n) ((QuoteJSONString k @ CHR '':'' # sp @ fv) @ R)
         = (case skip_ws R of
              [] \<Rightarrow> None
            | d # r4 \<Rightarrow>
                if d = CHR ''}'' then Some ([(k, v)], r4)
                else if d = CHR '','' then
                  map_option (\<lambda>(ms, r5). ((k, v) # ms, r5)) (parse_members n (skip_ws r4))
                else None)"
proof -
  let ?r1 = "CHR '':'' # sp @ fv @ R"
  have pc: "parse_chars (concat (map quote_char k) @ dquote # ?r1) = Some (k, ?r1)"
    by (rule parse_chars_quoted)
  have s1: "skip_ws ?r1 = ?r1" by (rule skip_ws_id) (simp add: is_ws_def)
  have s2: "skip_ws (sp @ fv @ R) = fv @ R"
    using skip_ws_ws [OF sp] skip_ws_starts [OF sv] by simp
  have "(QuoteJSONString k @ CHR '':'' # sp @ fv) @ R
          = dquote # (concat (map quote_char k) @ dquote # ?r1)"
    by (simp add: QuoteJSONString_def)
  then show ?thesis
    using pc s1 s2 pv by (simp del: parse_chars.simps)
qed

lemma parse_members_join:
  assumes pv: "\<And>kv n rest. kv \<in> set kvs \<Longrightarrow> fuel_of (snd kv) \<le> n \<Longrightarrow> delim rest
                 \<Longrightarrow> parse_value n (f (snd kv) @ rest) = Some (snd kv, rest)"
      and st: "\<And>kv. kv \<in> set kvs \<Longrightarrow> starts_value (f (snd kv))"
      and w1: "ws_only w1" and w2: "ws_only w2" and sp: "ws_only sp"
      and ne: "kvs \<noteq> []"
      and fu: "sum_list (map (\<lambda>kv. 1 + fuel_of (snd kv)) kvs) \<le> n"
  shows "parse_members n
           (join (CHR '','' # w1) (map (\<lambda>kv. QuoteJSONString (fst kv) @ CHR '':'' # sp @ f (snd kv)) kvs)
              @ w2 @ CHR ''}'' # rest)
         = Some (kvs, rest)"
  using pv st ne fu
proof (induction kvs arbitrary: n)
  case Nil
  then show ?case by simp
next
  case (Cons kv kvs)
  obtain k v where kv: "kv = (k, v)" by (cases kv)
  obtain n' where n: "n = Suc n'" using Cons.prems(4) by (cases n) auto
  have fx: "fuel_of v \<le> n'" using Cons.prems(4) n kv by simp
  have stv: "starts_value (f v)" using Cons.prems(2) [of kv] kv by simp
  let ?m = "\<lambda>kv. QuoteJSONString (fst kv) @ CHR '':'' # sp @ f (snd kv)"
  show ?case
  proof (cases kvs)
    case Nil
    let ?R = "w2 @ CHR ''}'' # rest"
    have d: "delim ?R" using delim_ws [OF w2 delim_cons(3)] by simp
    have p: "parse_value n' (f v @ ?R) = Some (v, ?R)"
      using Cons.prems(1) [of kv n' ?R] fx d kv by simp
    have s: "skip_ws ?R = CHR ''}'' # rest"
      using skip_ws_ws [OF w2] by (simp add: skip_ws_id is_ws_def)
    have "parse_members (Suc n') ((QuoteJSONString k @ CHR '':'' # sp @ f v) @ ?R)
            = Some ([(k, v)], rest)"
      using parse_member_head [OF starts_value_append [OF stv] sp p, of k] s by simp
    then show ?thesis using Nil n kv by simp
  next
    case (Cons kv2 kvs2)
    let ?J = "join (CHR '','' # w1) (map ?m (kv2 # kvs2)) @ w2 @ CHR ''}'' # rest"
    let ?R = "CHR '','' # w1 @ ?J"
    have p: "parse_value n' (f v @ ?R) = Some (v, ?R)"
      using Cons.prems(1) [of kv n' ?R] fx delim_cons(1) kv by simp
    have s: "skip_ws ?R = ?R" by (rule skip_ws_id) (simp add: is_ws_def)
    have sj: "starts_value ?J"
      using member_starts
      by (intro starts_value_append join_starts) auto
    have s2: "skip_ws (w1 @ ?J) = ?J"
      using skip_ws_ws [OF w1] skip_ws_starts [OF sj] by simp
    have fr: "sum_list (map (\<lambda>kv. 1 + fuel_of (snd kv)) kvs) \<le> n'"
      using Cons.prems(4) n by simp
    have ih: "parse_members n' ?J = Some (kvs, rest)"
      using Cons.IH [of n'] Cons.prems(1,2) fr Cons by simp
    have "parse_members (Suc n') ((QuoteJSONString k @ CHR '':'' # sp @ f v) @ ?R)
            = Some ((k, v) # kvs, rest)"
      using parse_member_head [OF starts_value_append [OF stv] sp p, of k] s s2 ih by simp
    moreover have "join (CHR '','' # w1) (map ?m (kv # kvs)) @ w2 @ CHR ''}'' # rest
                     = (QuoteJSONString k @ CHR '':'' # sp @ f v) @ ?R"
      using Cons kv by simp
    ultimately show ?thesis using n kv by simp
  qed
qed

lemma obj_set_fresh: "k \<notin> fst ` set kvs \<Longrightarrow> obj_set kvs k v = kvs @ [(k, v)]"
  by (induction kvs) auto

lemma obj_of_members_acc:
  "distinct (map fst (acc @ ms))
     \<Longrightarrow> foldl (\<lambda>acc kv. obj_set acc (fst kv) (snd kv)) acc ms = acc @ ms"
proof (induction ms arbitrary: acc)
  case Nil
  then show ?case by simp
next
  case (Cons m ms)
  have "fst m \<notin> fst ` set acc" using Cons.prems by auto
  then have "obj_set acc (fst m) (snd m) = acc @ [m]" by (simp add: obj_set_fresh)
  then show ?case using Cons.IH [of "acc @ [m]"] Cons.prems by simp
qed

lemma obj_of_members_distinct: "distinct (map fst kvs) \<Longrightarrow> obj_of_members kvs = kvs"
  using obj_of_members_acc [of "[]" kvs] by (simp add: obj_of_members_def)

lemma parse_value_open_array:
  assumes "starts_value E" and "ws_only w0"
  shows "parse_value (Suc n) (CHR ''['' # w0 @ E)
         = map_option (\<lambda>(vs, r). (JArr vs, r)) (parse_elems n E)"
proof -
  obtain d r where E: "E = d # r" using assms(1) by (cases E) (auto simp: starts_value_def)
  have d: "d \<noteq> CHR '']''" using assms(1) E value_start_not_close [of d] by (simp add: starts_value_def)
  have "skip_ws (w0 @ E) = d # r"
    using skip_ws_ws [OF assms(2)] skip_ws_starts [OF assms(1)] E by simp
  then show ?thesis using d E by (simp add: dquote_def)
qed

lemma parse_value_open_object:
  assumes "starts_value E" and "ws_only w0"
  shows "parse_value (Suc n) (CHR ''{'' # w0 @ E)
         = map_option (\<lambda>(ms, r). (JObj (obj_of_members ms), r)) (parse_members n E)"
proof -
  obtain d r where E: "E = d # r" using assms(1) by (cases E) (auto simp: starts_value_def)
  have d: "d \<noteq> CHR ''}''" using assms(1) E value_start_not_close [of d] by (simp add: starts_value_def)
  have "skip_ws (w0 @ E) = d # r"
    using skip_ws_ws [OF assms(2)] skip_ws_starts [OF assms(1)] E by simp
  then show ?thesis using d E by (simp add: dquote_def)
qed

lemma ws_only_simps:
  "ws_only []" "ws_only (newline # w) = ws_only w" "ws_only (a @ b) = (ws_only a \<and> ws_only b)"
  "ws_only '' ''"
  by (auto simp: ws_only_def is_ws_def newline_def)

lemma parse_value_ser:
  assumes g: "ws_only g"
  shows "ws_only ind \<Longrightarrow> delim rest \<Longrightarrow> fuel_of v \<le> n \<Longrightarrow> json_wf v \<Longrightarrow> no_neg_zero v
           \<Longrightarrow> parse_value n (SerializeJSONProperty g ind v @ rest) = Some (v, rest)"
proof (induction v arbitrary: ind rest n)
  case JNull
  then obtain n' where "n = Suc n'" by (cases n) auto
  then show ?case using parse_value_null by simp
next
  case (JBool b)
  then obtain n' where "n = Suc n'" by (cases n) auto
  then show ?case using parse_value_bool [of n' b rest] by simp
next
  case (JNum i)
  then obtain n' where "n = Suc n'" by (cases n) auto
  then show ?case using parse_value_num [OF JNum.prems(2), of i n'] JNum.prems(4) by simp
next
  case JNegZero
  then show ?case by simp
next
  case (JDec neg s p)
  then obtain n' where "n = Suc n'" by (cases n) auto
  then show ?case using parse_value_dec [OF JDec.prems(2), of s p n' neg] JDec.prems(4) by simp
next
  case (JStr s)
  then obtain n' where "n = Suc n'" by (cases n) auto
  then show ?case using parse_value_str [of n' s rest] by simp
next
  case (JArr xs)
  obtain n' where n: "n = Suc n'" using JArr.prems(3) by (cases n) auto
  let ?ind = "ind @ g"
  let ?f = "SerializeJSONProperty g ?ind"
  have wi: "ws_only ?ind" using g JArr.prems(1) by (simp add: ws_only_simps)
  show ?case
  proof (cases "xs = []")
    case True
    then show ?thesis using n by (simp add: wrap_partial_def skip_ws_def is_ws_def dquote_def)
  next
    case False
    have pv: "\<And>x n rest. x \<in> set xs \<Longrightarrow> fuel_of x \<le> n \<Longrightarrow> delim rest
                 \<Longrightarrow> parse_value n (?f x @ rest) = Some (x, rest)"
      using JArr.IH wi JArr.prems(4,5) by (simp add: list_all_iff)
    have st: "\<And>x. x \<in> set xs \<Longrightarrow> starts_value (?f x)" by (rule ser_starts)
    have fu: "sum_list (map (\<lambda>x. 1 + fuel_of x) xs) \<le> n'" using JArr.prems(3) n by simp
    have pe: "\<And>w1 w2. ws_only w1 \<Longrightarrow> ws_only w2 \<Longrightarrow>
                parse_elems n' (join (CHR '','' # w1) (map ?f xs) @ w2 @ CHR '']'' # rest) = Some (xs, rest)"
      using parse_elems_join [where f = ?f, OF pv st _ _ False fu] by blast
    have sj: "\<And>w1 t. starts_value (join (CHR '','' # w1) (map ?f xs) @ t)"
      using False ser_starts
      by (intro starts_value_append join_starts) (auto simp: hd_map)
    show ?thesis
    proof (cases "g = []")
      case True
      have "SerializeJSONProperty g ind (JArr xs) @ rest
              = CHR ''['' # [] @ (join (CHR '','' # []) (map ?f xs) @ [] @ CHR '']'' # rest)"
        using False True by (simp add: wrap_partial_def)
      then show ?thesis
        using parse_value_open_array [OF sj [of "[]"], of "[]" n'] pe [of "[]" "[]"] n
        by (simp add: ws_only_simps)
    next
      case gne: False
      let ?w1 = "newline # ?ind" and ?w2 = "newline # ind"
      have "SerializeJSONProperty g ind (JArr xs) @ rest
              = CHR ''['' # ?w1 @ (join (CHR '','' # ?w1) (map ?f xs) @ ?w2 @ CHR '']'' # rest)"
        using False gne by (simp add: wrap_partial_def Let_def)
      then show ?thesis
        using parse_value_open_array [OF sj [of ?w1], of ?w1 n'] pe [of ?w1 ?w2] n wi JArr.prems(1)
        by (simp add: ws_only_simps)
    qed
  qed
next
  case (JObj kvs)
  obtain n' where n: "n = Suc n'" using JObj.prems(3) by (cases n) auto
  let ?ind = "ind @ g"
  let ?f = "SerializeJSONProperty g ?ind"
  let ?sp = "if g = [] then [] else '' ''"
  let ?m = "\<lambda>kv. QuoteJSONString (fst kv) @ CHR '':'' # ?sp @ ?f (snd kv)"
  have wi: "ws_only ?ind" using g JObj.prems(1) by (simp add: ws_only_simps)
  have sp: "ws_only ?sp" by (simp add: ws_only_simps)
  have dk: "distinct (map fst kvs)" using JObj.prems(4) by simp
  show ?case
  proof (cases "kvs = []")
    case True
    then show ?thesis using n by (simp add: wrap_partial_def skip_ws_def is_ws_def dquote_def)
  next
    case False
    have pv: "\<And>kv n rest. kv \<in> set kvs \<Longrightarrow> fuel_of (snd kv) \<le> n \<Longrightarrow> delim rest
                 \<Longrightarrow> parse_value n (?f (snd kv) @ rest) = Some (snd kv, rest)"
    proof -
      fix kv n rest
      assume a: "kv \<in> set kvs" "fuel_of (snd kv) \<le> n" "delim rest"
      have "snd kv \<in> Basic_BNFs.snds kv" by (cases kv) simp
      moreover have "json_wf (snd kv)" using JObj.prems(4) a(1) by (simp add: list_all_iff)
      moreover have "no_neg_zero (snd kv)" using JObj.prems(5) a(1) by (simp add: list_all_iff)
      ultimately show "parse_value n (?f (snd kv) @ rest) = Some (snd kv, rest)"
        using JObj.IH [of kv "snd kv" ?ind rest n] a wi by simp
    qed
    have st: "\<And>kv. kv \<in> set kvs \<Longrightarrow> starts_value (?f (snd kv))" by (rule ser_starts)
    have fu: "sum_list (map (\<lambda>kv. 1 + fuel_of (snd kv)) kvs) \<le> n'" using JObj.prems(3) n by simp
    have pe: "\<And>w1 w2. ws_only w1 \<Longrightarrow> ws_only w2 \<Longrightarrow>
                parse_members n' (join (CHR '','' # w1) (map ?m kvs) @ w2 @ CHR ''}'' # rest)
                  = Some (kvs, rest)"
      using parse_members_join [where f = ?f and sp = ?sp, OF pv st _ _ sp False fu] by blast
    have sj: "\<And>w1 t. starts_value (join (CHR '','' # w1) (map ?m kvs) @ t)"
      using False member_starts
      by (intro starts_value_append join_starts) (auto simp: hd_map)
    show ?thesis
    proof (cases "g = []")
      case True
      have "SerializeJSONProperty g ind (JObj kvs) @ rest
              = CHR ''{'' # [] @ (join (CHR '','' # []) (map ?m kvs) @ [] @ CHR ''}'' # rest)"
        using False True by (simp add: wrap_partial_def)
      then show ?thesis
        using parse_value_open_object [OF sj [of "[]"], of "[]" n'] pe [of "[]" "[]"] n
              obj_of_members_distinct [OF dk]
        by (simp add: ws_only_simps)
    next
      case gne: False
      let ?w1 = "newline # ?ind" and ?w2 = "newline # ind"
      have "SerializeJSONProperty g ind (JObj kvs) @ rest
              = CHR ''{'' # ?w1 @ (join (CHR '','' # ?w1) (map ?m kvs) @ ?w2 @ CHR ''}'' # rest)"
        using False gne by (simp add: wrap_partial_def Let_def)
      then show ?thesis
        using parse_value_open_object [OF sj [of ?w1], of ?w1 n'] pe [of ?w1 ?w2] n wi JObj.prems(1)
              obj_of_members_distinct [OF dk]
        by (simp add: ws_only_simps)
    qed
  qed
qed

lemma length_join: "sum_list (map length xs) \<le> length (join sep xs)"
  by (induction sep xs rule: join.induct) auto

lemma length_wrap_partial:
  "2 + sum_list (map length partial) \<le> length (wrap_partial g sb opn cls partial)"
  using length_join [of partial "'',''"] length_join [of partial "CHR '','' # newline # sb @ g"]
  by (auto simp: wrap_partial_def Let_def)

lemma sum_list_double:
  assumes "\<And>x. x \<in> set xs \<Longrightarrow> Suc (a x) \<le> 2 * b x"
  shows "sum_list (map (\<lambda>x. 1 + a x) xs) \<le> 2 * sum_list (map b xs)"
  using assms
proof (induction xs)
  case Nil
  then show ?case by simp
next
  case (Cons x xs)
  have "Suc (a x) \<le> 2 * b x" using Cons.prems by simp
  moreover have "sum_list (map (\<lambda>x. 1 + a x) xs) \<le> 2 * sum_list (map b xs)"
    using Cons by simp
  ultimately show ?case by simp
qed

lemma fuel_of_length: "Suc (fuel_of v) \<le> 2 * length (SerializeJSONProperty g ind v)"
proof (induction v arbitrary: ind)
  case (JNum i)
  have "show_int i \<noteq> []" using show_int_starts [of i] by (auto simp: starts_value_def)
  then have "1 \<le> length (show_int i)" by (cases "show_int i") auto
  then show ?case by simp
next
  case (JDec neg s n)
  have "show_number neg s n \<noteq> []"
    using show_number_starts [of neg s n] by (auto simp: starts_value_def)
  then have "1 \<le> length (show_number neg s n)" by (cases "show_number neg s n") auto
  then show ?case by simp
next
  case (JArr xs)
  let ?f = "SerializeJSONProperty g (ind @ g)"
  have "sum_list (map (\<lambda>x. 1 + fuel_of x) xs) \<le> 2 * sum_list (map (\<lambda>x. length (?f x)) xs)"
    using JArr.IH by (intro sum_list_double) simp
  moreover have "2 + sum_list (map length (map ?f xs))
                   \<le> length (wrap_partial g ind CHR ''['' CHR '']'' (map ?f xs))"
    by (rule length_wrap_partial)
  ultimately show ?case by (simp add: comp_def)
next
  case (JObj kvs)
  let ?f = "SerializeJSONProperty g (ind @ g)"
  let ?m = "\<lambda>kv. QuoteJSONString (fst kv) @ CHR '':'' # (if g = [] then [] else '' '') @ ?f (snd kv)"
  have el: "\<And>kv. kv \<in> set kvs \<Longrightarrow> Suc (fuel_of (snd kv)) \<le> 2 * length (?m kv)"
  proof -
    fix kv assume "kv \<in> set kvs"
    moreover have "snd kv \<in> Basic_BNFs.snds kv" by (cases kv) simp
    ultimately have "Suc (fuel_of (snd kv)) \<le> 2 * length (?f (snd kv))"
      using JObj.IH by blast
    then show "Suc (fuel_of (snd kv)) \<le> 2 * length (?m kv)" by simp
  qed
  have "sum_list (map (\<lambda>kv. 1 + fuel_of (snd kv)) kvs) \<le> 2 * sum_list (map (\<lambda>kv. length (?m kv)) kvs)"
    using el by (intro sum_list_double) simp
  moreover have "2 + sum_list (map length (map ?m kvs))
                   \<le> length (wrap_partial g ind CHR ''{'' CHR ''}'' (map ?m kvs))"
    by (rule length_wrap_partial)
  ultimately show ?case by (simp add: comp_def)
qed (simp_all add: QuoteJSONString_def)

lemma JSON_parse_stringify:
  assumes "json_wf v" and "no_neg_zero v"
  shows "JSON_parse (JSON_stringify v space) = Some v"
proof -
  let ?g = "replicate (min space 10) CHR '' ''"
  let ?s = "SerializeJSONProperty ?g [] v"
  have g: "ws_only ?g" by (simp add: ws_only_def is_ws_def list_all_iff)
  have fu: "fuel_of v \<le> 2 * length ?s + 2" using fuel_of_length [of v ?g "[]"] by simp
  have "parse_value (2 * length ?s + 2) (?s @ []) = Some (v, [])"
    by (rule parse_value_ser [OF g _ _ fu assms]) (simp_all add: ws_only_def delim_def)
  moreover have "skip_ws ?s = ?s" using skip_ws_starts [OF ser_starts] .
  moreover have "skip_ws [] = []" by (simp add: skip_ws_def)
  ultimately show ?thesis
    by (simp add: JSON_parse_def JSON_stringify_def del: parse_value.simps)
qed

text \<open>
  C10: the claim is that the archived file, parsed back, is the value that was given,
  for every JSON value. It is for every value with no \<^verbatim>\<open>-0\<close> in it: when the
  directory is there or can be created, and the file can be written,
  \<^verbatim>\<open>saveRawData\<close> returns, the file at the path it returns holds the value
  serialised as JSON text indented by two blanks, and \<^verbatim>\<open>JSON.parse\<close> of that
  content is the value, unlimited.
\<close>

theorem archive_round_trip:
  assumes "json_wf data" and "no_neg_zero data"
      and "(if \<not> existsSync fs saveDir then mkdirSync fs saveDir else Inr fs) = Inr fs1"
      and "writeFileSync fs1 (path_join saveDir (filename isoNow tool ps)) (JSON_stringify data 2)
             = Inr fs2"
  shows "\<exists>info content.
           saveRawData fs isoNow data saveDir tool ps = (Inr info, fs2)
           \<and> readFileSync fs2 (filePath info) = Inr content
           \<and> content = JSON_stringify data 2
           \<and> JSON_parse content = Some data"
proof -
  let ?path = "path_join saveDir (filename isoNow tool ps)"
  let ?content = "JSON_stringify data 2"
  from assms(4) have n: "map_of (nodes fs2) (fs_path ?path) = Some (File ?content)"
    by (auto simp: writeFileSync_def split: if_splits option.splits fs_node.splits)
  have st: "statSync_size fs2 ?path = Inr (length ?content)" using n by (simp add: statSync_size_def)
  have rd: "readFileSync fs2 ?path = Inr ?content" using n by (simp add: readFileSync_def)
  have sv: "saveRawData fs isoNow data saveDir tool ps
              = (Inr \<lparr>filePath = ?path, fileSize = length ?content\<rparr>, fs2)"
    using assms(3,4) st by (simp add: saveRawData_def Let_def)
  have rt: "JSON_parse ?content = Some data" using JSON_parse_stringify [OF assms(1,2)] .
  show ?thesis using sv rd rt by simp
qed

theorem archive_round_trip_witness:
  "\<exists>info content.
     saveRawData \<lparr>nodes = [], denied = []\<rparr> ''2025-01-02T03:04:05.678Z''
         (JObj [(''id'', JNum 1), (''score'', JDec False 45 1),
                (''tags'', JArr [JStr ''a'', JNull, JBool True])])
         ''/data'' ''get_post'' None
       = (Inr info,
          \<lparr>nodes = [(''/data/get_post_2025-01-02T03-04-05-678Z.json'',
                      File (JSON_stringify
                              (JObj [(''id'', JNum 1), (''score'', JDec False 45 1),
                                     (''tags'', JArr [JStr ''a'', JNull, JBool True])]) 2)),
                     (''/data'', Dir)],
             denied = []\<rparr>)
     \<and> filePath info = ''/data/get_post_2025-01-02T03-04-05-678Z.json''
     \<and> readFileSync
           \<lparr>nodes = [(''/data/get_post_2025-01-02T03-04-05-678Z.json'',
                       File (JSON_stringify
                               (JObj [(''id'', JNum 1), (''score'', JDec False 45 1),
                                      (''tags'', JArr [JStr ''a'', JNull, JBool True])]) 2)),
                      (''/data'', Dir)],
              denied = []\<rparr>
           (filePath info) = Inr content
     \<and> JSON_parse content
         = Some (JObj [(''id'', JNum 1), (''score'', JDec False 45 1),
                       (''tags'', JArr [JStr ''a'', JNull, JBool True])])"
proof -
  let ?data = "JObj [(''id'', JNum 1), (''score'', JDec False 45 1),
                     (''tags'', JArr [JStr ''a'', JNull, JBool True])]"
  let ?path = "''/data/get_post_2025-01-02T03-04-05-678Z.json''"
  let ?fs = "\<lparr>nodes = [], denied = []\<rparr>"
  let ?fs1 = "\<lparr>nodes = [(''/data'', Dir)], denied = []\<rparr>"
  let ?fs2 = "\<lparr>nodes = [(?path, File (JSON_stringify ?data 2)), (''/data'', Dir)], denied = []\<rparr>"
  have wf: "json_wf ?data" by (simp add: show_nat.simps)
  have nz: "no_neg_zero ?data" by simp
  have mk: "(if \<not> existsSync ?fs ''/data'' then mkdirSync ?fs ''/data'' else Inr ?fs) = Inr ?fs1"
    by code_simp
  have pa: "path_join ''/data'' (filename ''2025-01-02T03:04:05.678Z'' ''get_post'' None) = ?path"
    by code_simp
  have fp: "fs_path ?path = ?path" by code_simp
  have dn: "dirname ?path = ''/data''" by code_simp
  have wr: "writeFileSync ?fs1 (path_join ''/data'' (filename ''2025-01-02T03:04:05.678Z'' ''get_post'' None))
              (JSON_stringify ?data 2) = Inr ?fs2"
    unfolding pa by (simp add: writeFileSync_def dn fp)
  obtain info content where
    r: "saveRawData ?fs ''2025-01-02T03:04:05.678Z'' ?data ''/data'' ''get_post'' None = (Inr info, ?fs2)"
       "readFileSync ?fs2 (filePath info) = Inr content"
       "content = JSON_stringify ?data 2"
       "JSON_parse content = Some ?data"
    using archive_round_trip [OF wf nz mk wr] by blast
  have "saveRawData ?fs ''2025-01-02T03:04:05.678Z'' ?data ''/data'' ''get_post'' None
          = (Inr \<lparr>filePath = ?path, fileSize = length (JSON_stringify ?data 2)\<rparr>, ?fs2)"
    using mk wr pa by (simp add: saveRawData_def Let_def statSync_size_def fp)
  then have fi: "filePath info = ?path" using r(1) by auto
  show ?thesis using r fi by blast
qed

text \<open>
  C10 as stated fails on \<^verbatim>\<open>-0\<close>, which \<^verbatim>\<open>JSON.stringify\<close> writes as
  \<^verbatim>\<open>0\<close>: the archive of \<^verbatim>\<open>{"delta": -0}\<close> is written, and parsed back it is
  \<^verbatim>\<open>{"delta": 0}\<close>.
\<close>

theorem archive_round_trip_counterexample:
  "saveRawData \<lparr>nodes = [], denied = []\<rparr> ''2025-01-02T03:04:05.678Z''
       (JObj [(''delta'', JNegZero)]) ''/data'' ''get_post'' None
     = (Inr \<lparr>filePath = ''/data/get_post_2025-01-02T03-04-05-678Z.json'', fileSize = 16\<rparr>,
        \<lparr>nodes = [(''/data/get_post_2025-01-02T03-04-05-678Z.json'',
                    File (JSON_stringify (JObj [(''delta'', JNegZero)]) 2)),
                   (''/data'', Dir)],
           denied = []\<rparr>)
   \<and> JSON_parse (JSON_stringify (JObj [(''delta'', JNegZero)]) 2) = Some (JObj [(''delta'', JNum 0)])
   \<and> JObj [(''delta'', JNum 0)] \<noteq> JObj [(''delta'', JNegZero)]"
proof -
  have a: "saveRawData \<lparr>nodes = [], denied = []\<rparr> ''2025-01-02T03:04:05.678Z''
       (JObj [(''delta'', JNegZero)]) ''/data'' ''get_post'' None
     = (Inr \<lparr>filePath = ''/data/get_post_2025-01-02T03-04-05-678Z.json'', fileSize = 16\<rparr>,
        \<lparr>nodes = [(''/data/get_post_2025-01-02T03-04-05-678Z.json'',
                    File (JSON_stringify (JObj [(''delta'', JNegZero)]) 2)),
                   (''/data'', Dir)],
           denied = []\<rparr>)"
    by code_simp
  have b: "JSON_parse (JSON_stringify (JObj [(''delta'', JNegZero)]) 2) = Some (JObj [(''delta'', JNum 0)])"
    by code_simp
  from a b show ?thesis by simp
qed

section \<open>The limiter on paths that the split gives back\<close>

lemma located_agree:
  "json_wf v \<Longrightarrow>
     (located_keys cfg v = None \<longrightarrow> findLargeArrayField cfg v p = None)
     \<and> (\<forall>ks. located_keys cfg v = Some ks \<longrightarrow>
            (ks = [] \<and> (\<exists>xs. v = JArr xs))
            \<or> (ks \<noteq> [] \<and> (\<exists>xs. value_at v ks = Some (JArr xs)
                                \<and> hit cfg p ks xs (findLargeArrayField cfg v p))))"
  "list_all (\<lambda>kv. json_wf (snd kv)) kvs \<Longrightarrow>
     (located_keys_loop cfg kvs = None \<longrightarrow> findLargeArrayField_loop cfg d kvs p = None)
     \<and> (\<forall>ks. located_keys_loop cfg kvs = Some ks \<longrightarrow>
            (\<exists>k ks' c xs. ks = k # ks' \<and> (k, c) \<in> set kvs \<and> value_at c ks' = Some (JArr xs)
                \<and> hit cfg p ks xs (findLargeArrayField_loop cfg d kvs p)))"
proof (induction cfg v p and cfg d kvs p
       rule: findLargeArrayField_findLargeArrayField_loop.induct)
  case (7 cfg xs pathStr)
  then show ?case by simp
next
  case (8 cfg kvs pathStr)
  have d: "distinct (map fst kvs)" and w: "list_all (\<lambda>kv. json_wf (snd kv)) kvs"
    using "8.prems" by simp_all
  note ih = "8.IH" [OF w]
  show ?case
  proof (intro conjI allI impI)
    assume "located_keys cfg (JObj kvs) = None"
    then show "findLargeArrayField cfg (JObj kvs) pathStr = None" using ih by simp
  next
    fix ks assume "located_keys cfg (JObj kvs) = Some ks"
    then obtain k ks' c xs where
      a: "ks = k # ks'" "(k, c) \<in> set kvs" "value_at c ks' = Some (JArr xs)"
         "hit cfg pathStr ks xs (findLargeArrayField_loop cfg (JObj kvs) kvs pathStr)"
      using ih by auto
    have "map_of kvs k = Some c" using d a(2) by simp
    then have "value_at (JObj kvs) ks = Some (JArr xs)" using a by simp
    then show "ks = [] \<and> (\<exists>xs. JObj kvs = JArr xs) \<or>
          ks \<noteq> [] \<and> (\<exists>xs. value_at (JObj kvs) ks = Some (JArr xs)
                          \<and> hit cfg pathStr ks xs (findLargeArrayField cfg (JObj kvs) pathStr))"
      using a by auto
  qed
next
  case (10 cfg data key val rest pathStr)
  let ?cp = "if pathStr \<noteq> [] then pathStr @ ''.'' @ key else key"
  let ?L = "\<lambda>kvs. (located_keys_loop cfg kvs = None \<longrightarrow> findLargeArrayField_loop cfg data kvs pathStr = None)
     \<and> (\<forall>ks. located_keys_loop cfg kvs = Some ks \<longrightarrow>
            (\<exists>k ks' c xs. ks = k # ks' \<and> (k, c) \<in> set kvs \<and> value_at c ks' = Some (JArr xs)
                \<and> hit cfg pathStr ks xs (findLargeArrayField_loop cfg data kvs pathStr)))"
  have wr: "list_all (\<lambda>kv. json_wf (snd kv)) rest" and wv: "json_wf val"
    using "10.prems" by simp_all
  show ?case
  proof (cases val)
    case (JArr xs)
    show ?thesis
    proof (cases "int (length xs) > maxItemsForContext cfg")
      case True
      then show ?thesis using JArr by (auto simp: hit_def Let_def)
    next
      case False
      have "?L rest" by (rule "10.IH"(7) [OF refl JArr False wr])
      then show ?thesis using JArr False by (fastforce simp: Let_def hit_def)
    qed
  next
    case (JObj kvs)
    have ih1: "(located_keys cfg (JObj kvs) = None \<longrightarrow> findLargeArrayField cfg (JObj kvs) ?cp = None)
     \<and> (\<forall>ks. located_keys cfg (JObj kvs) = Some ks \<longrightarrow>
            (ks = [] \<and> (\<exists>xs. JObj kvs = JArr xs))
            \<or> (ks \<noteq> [] \<and> (\<exists>xs. value_at (JObj kvs) ks = Some (JArr xs)
                                \<and> hit cfg ?cp ks xs (findLargeArrayField cfg (JObj kvs) ?cp))))"
      using "10.IH"(8) [OF refl JObj] wv JObj by simp
    show ?thesis
    proof (cases "located_keys cfg (JObj kvs)")
      case None
      then have fn: "findLargeArrayField cfg (JObj kvs) ?cp = None"
        using ih1 by simp
      have "?L rest" by (rule "10.IH"(9) [OF refl JObj fn wr])
      then show ?thesis using None fn JObj by (fastforce simp: Let_def hit_def)
    next
      case (Some ks')
      then obtain xs where
        a: "ks' \<noteq> []" "value_at (JObj kvs) ks' = Some (JArr xs)"
           "hit cfg ?cp ks' xs (findLargeArrayField cfg (JObj kvs) ?cp)"
        using ih1 by auto
      show ?thesis using Some a JObj by (auto simp: Let_def hit_def)
    qed
  next
    case JNull
    have "?L rest" by (rule "10.IH"(1) [OF refl JNull wr])
    then show ?thesis using JNull by (fastforce simp: Let_def hit_def)
  next
    case (JBool b)
    have "?L rest" by (rule "10.IH"(2) [OF refl JBool wr])
    then show ?thesis using JBool by (fastforce simp: Let_def hit_def)
  next
    case (JNum n)
    have "?L rest" by (rule "10.IH"(3) [OF refl JNum wr])
    then show ?thesis using JNum by (fastforce simp: Let_def hit_def)
  next
    case JNegZero
    have "?L rest" by (rule "10.IH"(4) [OF refl JNegZero wr])
    then show ?thesis using JNegZero by (fastforce simp: Let_def hit_def)
  next
    case (JDec neg s n)
    have "?L rest" by (rule "10.IH"(5) [OF refl JDec wr])
    then show ?thesis using JDec by (fastforce simp: Let_def hit_def)
  next
    case (JStr s)
    have "?L rest" by (rule "10.IH"(6) [OF refl JStr wr])
    then show ?thesis using JStr by (fastforce simp: Let_def hit_def)
  qed
qed simp_all

lemma path_of_nonempty: "p \<noteq> [] \<Longrightarrow> path_of p ks = p @ concat (map ((@) ''.'') ks)"
  by (induction ks arbitrary: p) auto

lemma join_dot: "join ''.'' (k # ks) = k @ concat (map ((@) ''.'') ks)"
  by (induction ks arbitrary: k) auto

lemma path_of_join: "ks \<noteq> [] \<Longrightarrow> hd ks \<noteq> [] \<or> length ks = 1 \<Longrightarrow> path_of [] ks = join ''.'' ks"
proof (cases ks)
  case Nil
  then show ?thesis by simp
next
  case (Cons k ks')
  assume "hd ks \<noteq> [] \<or> length ks = 1"
  then show ?thesis
    using Cons path_of_nonempty [of k ks'] join_dot [of k ks'] by (cases "k = []") auto
qed

lemma split_on_none: "c \<notin> set k \<Longrightarrow> split_on c k = [k]"
  by (induction k) auto

lemma split_on_append: "c \<notin> set k \<Longrightarrow> split_on c (k @ c # rest) = k # split_on c rest"
  by (induction k) auto

lemma split_on_join:
  "ks \<noteq> [] \<Longrightarrow> \<forall>k \<in> set ks. CHR ''.'' \<notin> set k \<Longrightarrow> split_on CHR ''.'' (join ''.'' ks) = ks"
proof (induction "''.''" ks rule: join.induct)
  case 1
  then show ?case by simp
next
  case (2 x)
  then show ?case by (simp add: split_on_none)
next
  case (3 x y ys)
  then show ?case using split_on_append [of "CHR ''.''" x "join ''.'' (y # ys)"] by simp
qed

lemma map_same_key:
  "k \<notin> fst ` set kvs \<Longrightarrow> map (\<lambda>kc. if fst kc = k then (fst kc, g (snd kc)) else kc) kvs = kvs"
  by (induction kvs) auto

lemma obj_set_map:
  "distinct (map fst kvs) \<Longrightarrow> map_of kvs k = Some c
     \<Longrightarrow> obj_set kvs k (g c) = map (\<lambda>kc. if fst kc = k then (fst kc, g (snd kc)) else kc) kvs"
proof (induction kvs)
  case Nil
  then show ?case by simp
next
  case (Cons kv kvs)
  obtain k' c' where kv: "kv = (k', c')" by (cases kv)
  show ?case
  proof (cases "k' = k")
    case True
    then have "k \<notin> fst ` set kvs" using Cons.prems(1) kv by auto
    then show ?thesis using True kv Cons.prems(2) map_same_key [of k kvs g] by simp
  next
    case False
    then show ?thesis using kv Cons by simp
  qed
qed

lemma map_of_wf: "list_all (\<lambda>kv. json_wf (snd kv)) kvs \<Longrightarrow> map_of kvs k = Some c \<Longrightarrow> json_wf c"
  by (induction kvs) (auto split: if_splits)

lemma map_of_key: "map_of kvs k = Some c \<Longrightarrow> k \<in> fst ` set kvs"
  by (induction kvs) (auto split: if_splits)

lemma assign_path_replace:
  "json_wf v \<Longrightarrow> value_at v ks = Some old \<Longrightarrow> ks \<noteq> []
     \<Longrightarrow> assign_path v ks new = Inr (replace_at v ks new)"
proof (induction ks arbitrary: v old)
  case Nil
  then show ?case by simp
next
  case (Cons k ks)
  obtain kvs where v: "v = JObj kvs" using Cons.prems(2) by (cases v) auto
  obtain c where c: "map_of kvs k = Some c" and vc: "value_at c ks = Some old"
    using Cons.prems(2) v by (auto split: option.splits)
  have d: "distinct (map fst kvs)" and w: "list_all (\<lambda>kv. json_wf (snd kv)) kvs"
    using Cons.prems(1) v by simp_all
  have wc: "json_wf c" using map_of_wf [OF w c] .
  show ?case
  proof (cases ks)
    case Nil
    have "set_prop (JObj kvs) k new = Inr (JObj (obj_set kvs k new))"
      using map_of_key [OF c] by simp
    moreover have "obj_set kvs k new = map (\<lambda>kc. if fst kc = k then (fst kc, new) else kc) kvs"
      using obj_set_map [OF d c, of "\<lambda>_. new"] by simp
    ultimately show ?thesis using Nil v by simp
  next
    case (Cons k' ks')
    have ih: "assign_path c (k' # ks') new = Inr (replace_at c (k' # ks') new)"
      using Cons.IH [OF wc] vc Cons by simp
    have "obj_set kvs k (replace_at c (k' # ks') new)
            = map (\<lambda>kc. if fst kc = k then (fst kc, replace_at (snd kc) (k' # ks') new) else kc) kvs"
      using obj_set_map [OF d c, of "\<lambda>x. replace_at x (k' # ks') new"] by simp
    then show ?thesis using Cons v c ih by simp
  qed
qed

lemma map_of_map_replace:
  "map_of (map (\<lambda>kc. if fst kc = k then (fst kc, g (snd kc)) else kc) kvs) q
     = (if q = k then map_option g (map_of kvs q) else map_of kvs q)"
  by (induction kvs) auto

lemma value_at_replace_same:
  "value_at v ks = Some old \<Longrightarrow> value_at (replace_at v ks new) ks = Some new"
proof (induction ks arbitrary: v)
  case Nil
  then show ?case by simp
next
  case (Cons k ks)
  then obtain kvs where v: "v = JObj kvs" by (cases v) auto
  then show ?case using Cons
    by (auto simp: map_of_map_replace [of k "\<lambda>x. replace_at x ks new"] split: option.splits)
qed

lemma value_at_replace_other:
  "\<not> prefix ks qs \<Longrightarrow> \<not> prefix qs ks \<Longrightarrow> value_at (replace_at v ks new) qs = value_at v qs"
proof (induction ks arbitrary: v qs)
  case Nil
  then show ?case by simp
next
  case (Cons k ks)
  obtain q qs' where qs: "qs = q # qs'" using Cons.prems(2) by (cases qs) auto
  show ?case
  proof (cases v)
    case (JObj kvs)
    show ?thesis
    proof (cases "q = k")
      case True
      then have "\<not> prefix ks qs'" "\<not> prefix qs' ks" using Cons.prems qs by simp_all
      then show ?thesis using Cons.IH JObj qs True
        by (auto simp: map_of_map_replace [of k "\<lambda>x. replace_at x ks new"] split: option.splits)
    next
      case False
      then show ?thesis using JObj qs
        by (simp add: map_of_map_replace [of k "\<lambda>x. replace_at x ks new"])
    qed
  qed (simp_all add: qs)
qed

text \<open>
  X1, the limiter's frame: for a value with no \<^verbatim>\<open>-0\<close> in it (the clone has
  \<^verbatim>\<open>0\<close> in its place) and a threshold that is not negative,
  if the located array is a field of an object and the keys leading to it contain no
  \<^verbatim>\<open>.\<close> (and the first of several is not empty), then the locator reports the keys
  joined by \<^verbatim>\<open>.\<close>, and \<^verbatim>\<open>limitItems\<close> returns the input with the subtree at
  those keys replaced by the array's first \<open>N\<close> elements: the field then holds them,
  and the subtree at every key path that neither leads to the field nor starts from it
  is the input's.
\<close>

theorem limitItems_frame:
  assumes wf: "json_wf data" and nz: "no_neg_zero data" and n0: "0 \<le> maxItemsForContext cfg"
      and lk: "located_keys cfg data = Some ks" and ne: "ks \<noteq> []"
      and nd: "\<forall>k \<in> set ks. CHR ''.'' \<notin> set k"
      and he: "hd ks \<noteq> [] \<or> length ks = 1"
  shows "\<exists>xs. value_at data ks = Some (JArr xs)
            \<and> int (length xs) > maxItemsForContext cfg
            \<and> map_option fieldPath (findLargeArrayField cfg data []) = Some (join ''.'' ks)
            \<and> map_option array (findLargeArrayField cfg data []) = Some xs
            \<and> limitItems cfg data
                = Inr \<lparr>limited = replace_at data ks (JArr (take (nat (maxItemsForContext cfg)) xs)),
                       originalCount = int (length xs), wasLimited = True,
                       limitedField = Some (join ''.'' ks)\<rparr>
            \<and> value_at (replace_at data ks (JArr (take (nat (maxItemsForContext cfg)) xs))) ks
                = Some (JArr (take (nat (maxItemsForContext cfg)) xs))
            \<and> (\<forall>qs. \<not> prefix ks qs \<and> \<not> prefix qs ks \<longrightarrow>
                   value_at (replace_at data ks (JArr (take (nat (maxItemsForContext cfg)) xs))) qs
                     = value_at data qs)"
proof -
  let ?N = "maxItemsForContext cfg"
  obtain xs where va: "value_at data ks = Some (JArr xs)"
    and h: "hit cfg [] ks xs (findLargeArrayField cfg data [])"
    using located_agree(1) [OF wf, of cfg "[]"] lk ne by auto
  from h obtain par where big: "int (length xs) > ?N"
    and f: "findLargeArrayField cfg data []
              = Some \<lparr>fieldPath = path_of [] ks, array = xs, parentObj = Some par, fieldKey = last ks\<rparr>"
    by (auto simp: hit_def)
  have fp: "path_of [] ks = join ''.'' ks" using path_of_join [OF ne he] .
  have sp: "split_on CHR ''.'' (join ''.'' ks) = ks" using split_on_join [OF ne nd] .
  have nf: "\<not> falsy data" using va ne by (cases data; cases ks) auto
  have cl: "JSON_parse (JSON_stringify data 0) = Some data" using JSON_parse_stringify [OF wf nz] .
  have sl: "slice0 xs ?N = take (nat ?N) xs" using n0 big by (simp add: slice0_def min_def)
  have ap: "assign_path data ks (JArr (take (nat ?N) xs))
              = Inr (replace_at data ks (JArr (take (nat ?N) xs)))"
    using assign_path_replace [OF wf va ne] .
  have li: "limitItems cfg data
                = Inr \<lparr>limited = replace_at data ks (JArr (take (nat ?N) xs)),
                       originalCount = int (length xs), wasLimited = True,
                       limitedField = Some (join ''.'' ks)\<rparr>"
    using nf f fp sp cl sl ap by (simp add: limitItems_def)
  have same: "value_at (replace_at data ks (JArr (take (nat ?N) xs))) ks
                = Some (JArr (take (nat ?N) xs))"
    using value_at_replace_same [OF va] .
  have other: "\<forall>qs. \<not> prefix ks qs \<and> \<not> prefix qs ks \<longrightarrow>
                   value_at (replace_at data ks (JArr (take (nat ?N) xs))) qs = value_at data qs"
    using value_at_replace_other by blast
  show ?thesis using va big f fp li same other by auto
qed

theorem limitItems_frame_witness:
  "limitItems \<lparr>maxItemsForContext = 2\<rparr>
     (JObj [(''meta'', JObj [(''total'', JNum 3)]),
            (''response'', JObj [(''items'', JArr [JNum 1, JNum 2, JNum 3]), (''status'', JStr ''ok'')])])
   = Inr \<lparr>limited =
            JObj [(''meta'', JObj [(''total'', JNum 3)]),
                  (''response'', JObj [(''items'', JArr [JNum 1, JNum 2]), (''status'', JStr ''ok'')])],
          originalCount = 3, wasLimited = True, limitedField = Some ''response.items''\<rparr>"
proof -
  let ?data = "JObj [(''meta'', JObj [(''total'', JNum 3)]),
            (''response'', JObj [(''items'', JArr [JNum 1, JNum 2, JNum 3]), (''status'', JStr ''ok'')])]"
  let ?cfg = "\<lparr>maxItemsForContext = 2\<rparr>"
  have wf: "json_wf ?data" by simp
  have nz: "no_neg_zero ?data" by simp
  have n0: "0 \<le> maxItemsForContext ?cfg" by simp
  have lk: "located_keys ?cfg ?data = Some [''response'', ''items'']" by simp
  have va: "value_at ?data [''response'', ''items''] = Some (JArr [JNum 1, JNum 2, JNum 3])" by simp
  show ?thesis
    using limitItems_frame [OF wf nz n0 lk] va by auto
qed

section \<open>Further properties of the handler\<close>

text \<open>
  X2: what the summary does hold for leaves. At the root \<^verbatim>\<open>null\<close> is \<^verbatim>\<open>null\<close>, the
  empty array is \<^verbatim>\<open>[]\<close>, the empty object is \<^verbatim>\<open>{}\<close> and a primitive is its type
  name; an object's \<^verbatim>\<open>null\<close> field is \<^verbatim>\<open>key: null\<close>; an array whose first element
  is a number is \<^verbatim>\<open>Array[n]\<close> and an \<^verbatim>\<open>[0]: number\<close> line, so the summary of
  \<^verbatim>\<open>[1,2,3]\<close> contains \<^verbatim>\<open>Array[3]\<close> and \<^verbatim>\<open>[0]: number\<close>.
\<close>

theorem generateJsonStructureTree_leaves:
  "generateJsonStructureTree JNull pfx isLast = ''null''
   \<and> generateJsonStructureTree (JArr []) pfx isLast = ''[]''
   \<and> generateJsonStructureTree (JObj []) pfx isLast = ''{}''
   \<and> generateJsonStructureTree (JNum n) pfx isLast = ''number''
   \<and> generateJsonStructureTree JNegZero pfx isLast = ''number''
   \<and> generateJsonStructureTree (JDec neg d e) pfx isLast = ''number''
   \<and> generateJsonStructureTree (JStr s) pfx isLast = ''string''
   \<and> generateJsonStructureTree (JBool b) pfx isLast = ''boolean''
   \<and> tree_lines [(key, JNull)] pfx = [pfx @ glyph_corner @ key @ '': null'']
   \<and> generateJsonStructureTree (JArr (JNum n # others)) pfx isLast
       = ''Array['' @ show_nat (Suc (length others)) @ '']'' @ [newline] @ pfx @ glyph_corner
           @ ''[0]: number''
   \<and> str_includes (generateJsonStructureTree (JArr [JNum 1, JNum 2, JNum 3]) [] True) ''Array[3]''
   \<and> str_includes (generateJsonStructureTree (JArr [JNum 1, JNum 2, JNum 3]) [] True)
         ''[0]: number''"
proof -
  have e: "generateJsonStructureTree (JArr [JNum 1, JNum 2, JNum 3]) [] True
             = ''Array[3]'' @ [newline] @ glyph_corner @ ''[0]: number''"
    by (simp add: show_nat.simps digit_char_def)
  have a: "str_includes (generateJsonStructureTree (JArr [JNum 1, JNum 2, JNum 3]) [] True) ''Array[3]''"
    unfolding e using str_includes_append [of "[]" "''Array[3]''"] by simp
  have b: "str_includes (generateJsonStructureTree (JArr [JNum 1, JNum 2, JNum 3]) [] True)
         ''[0]: number''"
    unfolding e using str_includes_append [of "''Array[3]'' @ [newline] @ glyph_corner" "''[0]: number''" "[]"]
    by (simp del: str_includes.simps)
  show ?thesis using a b by (simp del: str_includes.simps)
qed

text \<open>
  X3: an array is summarised by its length and its element 0 alone: two arrays of one
  length with the same first element have the same summary, at the root and as an
  object's field.
\<close>

theorem summary_first_element_only:
  "length xs = length ys \<Longrightarrow>
     generateJsonStructureTree (JArr (x # xs)) pfx isLast
       = generateJsonStructureTree (JArr (x # ys)) pfx isLast
     \<and> tree_lines ((key, JArr (x # xs)) # rest) pfx = tree_lines ((key, JArr (x # ys)) # rest) pfx"
  by (simp add: Let_def)

theorem summary_first_element_only_witness:
  "generateJsonStructureTree (JArr [JObj [(''id'', JNum 1)], JStr ''x'', JArr [JNull]]) [] True
     = generateJsonStructureTree (JArr [JObj [(''id'', JNum 1)], JNum 2, JNum 3]) [] True"
  using summary_first_element_only [of "[JStr ''x'', JArr [JNull]]" "[JNum 2, JNum 3]"
          "JObj [(''id'', JNum 1)]" "[]" True]
  by simp

lemma located_none_find:
  "json_wf v \<Longrightarrow> located_keys cfg v = None \<Longrightarrow> findLargeArrayField cfg v p = None"
  using located_agree(1) [of v cfg p] by simp

text \<open>
  X4: where the claim C1 does hold. A depth-1 field holding an oversized array is the
  located field whenever no field declared before it is or contains a located array;
  so it is for the key order the repository's test uses.
\<close>

theorem findLargeArrayField_first_direct:
  assumes "list_all (\<lambda>kv. json_wf (snd kv)) before"
      and "\<forall>kv \<in> set before. located_keys cfg (snd kv) = None"
      and "int (length xs) > maxItemsForContext cfg"
  shows "findLargeArrayField cfg (JObj (before @ (key, JArr xs) # after)) []
           = Some \<lparr>fieldPath = key, array = xs,
                    parentObj = Some (JObj (before @ (key, JArr xs) # after)), fieldKey = key\<rparr>"
proof -
  have "findLargeArrayField_loop cfg d (before @ (key, JArr xs) # after) []
           = Some \<lparr>fieldPath = key, array = xs, parentObj = Some d, fieldKey = key\<rparr>" for d
    using assms(1,2)
  proof (induction before)
    case Nil
    then show ?case using assms(3) by simp
  next
    case (Cons kv before)
    obtain k v where kv: "kv = (k, v)" by (cases kv)
    have wv: "json_wf v" and lv: "located_keys cfg v = None" using Cons.prems kv by simp_all
    have ih: "findLargeArrayField_loop cfg d (before @ (key, JArr xs) # after) []
           = Some \<lparr>fieldPath = key, array = xs, parentObj = Some d, fieldKey = key\<rparr>"
      using Cons by simp
    show ?case
    proof (cases v)
      case (JArr ys)
      then show ?thesis using lv ih kv by (simp split: if_splits)
    next
      case (JObj kvs)
      then show ?thesis using located_none_find [OF wv lv, of k] ih kv by simp
    qed (use ih kv in simp_all)
  qed
  then show ?thesis by simp
qed

theorem findLargeArrayField_first_direct_witness:
  "map_option fieldPath
     (findLargeArrayField \<lparr>maxItemsForContext = 10\<rparr>
        (JObj [(''smallArray'', JArr (replicate 5 (JObj [(''id'', JNum 1)]))),
               (''largeArray1'', JArr (replicate 15 (JObj [(''id'', JNum 2)]))),
               (''nested'', JObj [(''largeArray2'', JArr (replicate 20 (JObj [(''id'', JNum 3)])))])]) [])
   = Some ''largeArray1''"
  using findLargeArrayField_first_direct
          [of "[(''smallArray'', JArr (replicate 5 (JObj [(''id'', JNum 1)])))]"
              "\<lparr>maxItemsForContext = 10\<rparr>" "replicate 15 (JObj [(''id'', JNum 2)])" "''largeArray1''"
              "[(''nested'', JObj [(''largeArray2'', JArr (replicate 20 (JObj [(''id'', JNum 3)])))])]"]
  by (simp add: list_all_iff)

text \<open>
  X5: the deep clone of \<^verbatim>\<open>limitItems\<close>, \<^verbatim>\<open>JSON.parse(JSON.stringify(data))\<close>, and
  the same with any indentation, gives back a value equal to \<open>data\<close>, for every value
  with no \<^verbatim>\<open>-0\<close> in it, fractions and exponents included; \<^verbatim>\<open>-0\<close> itself comes
  back as \<^verbatim>\<open>0\<close>.
\<close>

theorem json_text_round_trip:
  "(json_wf v \<and> no_neg_zero v \<longrightarrow> JSON_parse (JSON_stringify v space) = Some v)
   \<and> JSON_parse (JSON_stringify JNegZero space) = Some (JNum 0)"
proof -
  have "JSON_stringify JNegZero space = ''0''" by (simp add: JSON_stringify_def)
  moreover have "JSON_parse ''0'' = Some (JNum 0)" by code_simp
  ultimately show ?thesis using JSON_parse_stringify [of v space] by simp
qed

theorem json_text_round_trip_witness:
  "JSON_parse (JSON_stringify
      (JObj [(''a.b'', JArr [JNum (- 7), JDec True 15 (- 6), JDec False 1 22, JStr ''x'', JNull,
                             JBool True])]) 0)
     = Some (JObj [(''a.b'', JArr [JNum (- 7), JDec True 15 (- 6), JDec False 1 22, JStr ''x'', JNull,
                                   JBool True])])"
  using json_text_round_trip
          [of "JObj [(''a.b'', JArr [JNum (- 7), JDec True 15 (- 6), JDec False 1 22, JStr ''x'', JNull,
                                     JBool True])]" 0]
  by (simp add: show_nat.simps)

lemma response_lines_header:
  "\<exists>rest. response_lines cfg tool saved r = (''## '' @ or_default tool ''Response'') # [] # rest"
  by (simp add: response_lines_def)

lemma join_prefix: "prefix x (join sep (x # xs))"
  by (cases xs) simp_all

lemma response_lines_tree:
  "generateJsonStructureTree (limited r) [] True \<in> set (response_lines cfg tool saved r)"
  "JSON_stringify (limited r) 2 \<in> set (response_lines cfg tool saved r)"
  by (simp_all add: response_lines_def)

lemma response_lines_note:
  "wasLimited r \<Longrightarrow> limitedField r = Some f \<Longrightarrow> f \<noteq> [] \<Longrightarrow>
     ''> **Note**: '' @ [backtick] @ f @ [backtick] @ '' limited to ''
        @ show_int (maxItemsForContext cfg) @ '' items ('' @ show_int (originalCount r)
        @ '' total). ''
        @ (if saved \<noteq> None then ''Full data saved to file.''
           else ''Provide '' @ [backtick] @ ''raw_data_save_dir'' @ [backtick]
                  @ '' parameter to save full response.'')
       \<in> set (response_lines cfg tool saved r)"
  by (simp add: response_lines_def)

text \<open>
  X6: the renderer with no archive directory. It leaves the file system as it is and,
  when the limiter returns, returns one text: it begins with the header naming the
  tool (\<^verbatim>\<open>Response\<close> when none is given) and holds the structure section with the
  outline of the limited value and the data section with the limited value as indented
  JSON; when a field was limited it also holds the note naming the field, the threshold
  and the original count, and the data header with the field and
  \<^verbatim>\<open>threshold/count items\<close>.
\<close>

theorem formatResponse_no_archive:
  assumes na: "options = None \<or> (\<exists>opts. options = Some opts \<and> rawDataSaveDir opts = None)"
      and li: "limitItems cfg data = Inr r"
  shows "\<exists>t. formatResponse cfg fs isoNow data options
               = (Inr \<lparr>content = [\<lparr>content_type = ''text'', content_text = t\<rparr>]\<rparr>, fs)
           \<and> prefix (''## '' @ or_default (case options of None \<Rightarrow> None | Some opts \<Rightarrow> toolName opts)
                                 ''Response'') t
           \<and> str_includes t ''### JSON Structure''
           \<and> str_includes t (generateJsonStructureTree (limited r) [] True)
           \<and> str_includes t ''### Data''
           \<and> str_includes t (JSON_stringify (limited r) 2)
           \<and> (\<forall>f. wasLimited r \<and> limitedField r = Some f \<and> f \<noteq> [] \<longrightarrow>
                 str_includes t
                   ([backtick] @ f @ [backtick] @ '' limited to '' @ show_int (maxItemsForContext cfg)
                      @ '' items ('' @ show_int (originalCount r) @ '' total)'')
                 \<and> str_includes t
                   (''### Data ('' @ [backtick] @ f @ [backtick] @ '': ''
                      @ show_int (maxItemsForContext cfg) @ ''/'' @ show_int (originalCount r)
                      @ '' items)''))"
proof -
  let ?tool = "case options of None \<Rightarrow> None | Some opts \<Rightarrow> toolName opts"
  let ?t = "join [newline] (response_lines cfg ?tool None r)"
  have fr: "formatResponse cfg fs isoNow data options
               = (Inr \<lparr>content = [\<lparr>content_type = ''text'', content_text = ?t\<rparr>]\<rparr>, fs)"
    using na li by (auto simp: formatResponse_def)
  have hd: "prefix (''## '' @ or_default ?tool ''Response'') ?t"
    using response_lines_header [of cfg ?tool None r] join_prefix by metis
  have s1: "str_includes ?t ''### JSON Structure''" by (rule response_text_structure)
  have s2: "str_includes ?t ''### Data''" by (rule response_text_data)
  have s3: "str_includes ?t (generateJsonStructureTree (limited r) [] True)"
    using response_lines_tree(1) str_includes_refl by (rule str_includes_join)
  have s4: "str_includes ?t (JSON_stringify (limited r) 2)"
    using response_lines_tree(2) str_includes_refl by (rule str_includes_join)
  have s5: "str_includes ?t
                   ([backtick] @ f @ [backtick] @ '' limited to '' @ show_int (maxItemsForContext cfg)
                      @ '' items ('' @ show_int (originalCount r) @ '' total)'')
            \<and> str_includes ?t
                   (''### Data ('' @ [backtick] @ f @ [backtick] @ '': ''
                      @ show_int (maxItemsForContext cfg) @ ''/'' @ show_int (originalCount r)
                      @ '' items)'')"
    if w: "wasLimited r" and l: "limitedField r = Some f" and n: "f \<noteq> []" for f
  proof
    let ?mid = "[backtick] @ f @ [backtick] @ '' limited to '' @ show_int (maxItemsForContext cfg)
                      @ '' items ('' @ show_int (originalCount r) @ '' total)''"
    let ?line = "''> **Note**: '' @ [backtick] @ f @ [backtick] @ '' limited to ''
        @ show_int (maxItemsForContext cfg) @ '' items ('' @ show_int (originalCount r)
        @ '' total). ''
        @ (if (None :: SaveRawDataResult option) \<noteq> None then ''Full data saved to file.''
           else ''Provide '' @ [backtick] @ ''raw_data_save_dir'' @ [backtick]
                  @ '' parameter to save full response.'')"
    have "?line = ''> **Note**: '' @ ?mid @ (''. '' @ ''Provide '' @ [backtick] @ ''raw_data_save_dir'' @ [backtick]
                  @ '' parameter to save full response.'')"
      by simp
    then have "str_includes ?line ?mid" using str_includes_append by metis
    then show "str_includes ?t ?mid"
      using response_lines_note [OF w l n, of cfg None ?tool] str_includes_join by blast
    have "data_header cfg r = ''### Data ('' @ [backtick] @ f @ [backtick] @ '': ''
                      @ show_int (maxItemsForContext cfg) @ ''/'' @ show_int (originalCount r)
                      @ '' items)''"
      using w l by (simp add: data_header_def)
    then show "str_includes ?t (''### Data ('' @ [backtick] @ f @ [backtick] @ '': ''
                      @ show_int (maxItemsForContext cfg) @ ''/'' @ show_int (originalCount r)
                      @ '' items)'')"
      using response_lines_data [of cfg r ?tool None] str_includes_refl str_includes_join by metis
  qed
  show ?thesis
    using fr hd s1 s2 s3 s4 s5 by (intro exI [of _ ?t]) blast
qed

text \<open>
  X7: what \<^verbatim>\<open>saveRawData\<close> returns when it returns. The path is \<^verbatim>\<open>path.join\<close>
  of the directory and the derived file name; the size is the length of the file's
  content, which is the value as indented JSON text; the directory exists afterwards.
  For the directory written \<^verbatim>\<open>data/\<close> the path has one slash after \<^verbatim>\<open>data\<close>.
\<close>

theorem saveRawData_result:
  assumes "saveRawData fs isoNow data saveDir tool ps = (Inr info, fs')"
  shows "filePath info
           = path_join saveDir (tool @ paramsStr ps @ ''_'' @ timestamp isoNow @ ''.json'')
         \<and> fileSize info = length (JSON_stringify data 2)
         \<and> readFileSync fs' (filePath info) = Inr (JSON_stringify data 2)
         \<and> existsSync fs' saveDir"
proof -
  let ?path = "path_join saveDir (filename isoNow tool ps)"
  let ?content = "JSON_stringify data 2"
  from assms obtain fs1 where
    m: "(if \<not> existsSync fs saveDir then mkdirSync fs saveDir else Inr fs) = Inr fs1"
    and w: "writeFileSync fs1 ?path ?content = Inr fs'"
    and st: "statSync_size fs' ?path = Inr (fileSize info)"
    and i: "filePath info = ?path"
    by (auto simp: saveRawData_def Let_def split: sum.splits if_splits)
  have e1: "existsSync fs1 saveDir"
    using m by (auto simp: existsSync_def mkdirSync_def split: if_splits option.splits fs_node.splits)
  from w have n: "nodes fs' = (fs_path ?path, File ?content) # nodes fs1"
    by (auto simp: writeFileSync_def split: if_splits option.splits fs_node.splits)
  have r: "readFileSync fs' ?path = Inr ?content" using n by (simp add: readFileSync_def)
  have sz: "fileSize info = length ?content" using st n by (simp add: statSync_size_def)
  have e2: "existsSync fs' saveDir" using e1 n by (auto simp: existsSync_def)
  show ?thesis using i r sz e2 by (simp add: filename_def)
qed

theorem saveRawData_result_witness:
  "saveRawData \<lparr>nodes = [], denied = []\<rparr> ''2025-01-02T03:04:05.678Z'' (JObj [(''id'', JNum 1)])
       ''data/'' ''get_post'' None
     = (Inr \<lparr>filePath = ''data/get_post_2025-01-02T03-04-05-678Z.json'', fileSize = 13\<rparr>,
        \<lparr>nodes = [(''data/get_post_2025-01-02T03-04-05-678Z.json'',
                    File (JSON_stringify (JObj [(''id'', JNum 1)]) 2)),
                   (''data'', Dir)],
           denied = []\<rparr>)
   \<and> ''data/get_post_2025-01-02T03-04-05-678Z.json''
       = path_join ''data/'' (''get_post'' @ paramsStr None @ ''_'' @ timestamp ''2025-01-02T03:04:05.678Z''
                               @ ''.json'')
   \<and> 13 = length (JSON_stringify (JObj [(''id'', JNum 1)]) 2)
   \<and> readFileSync
         \<lparr>nodes = [(''data/get_post_2025-01-02T03-04-05-678Z.json'',
                     File (JSON_stringify (JObj [(''id'', JNum 1)]) 2)),
                    (''data'', Dir)],
            denied = []\<rparr>
         ''data/get_post_2025-01-02T03-04-05-678Z.json''
       = Inr (JSON_stringify (JObj [(''id'', JNum 1)]) 2)
   \<and> existsSync
         \<lparr>nodes = [(''data/get_post_2025-01-02T03-04-05-678Z.json'',
                     File (JSON_stringify (JObj [(''id'', JNum 1)]) 2)),
                    (''data'', Dir)],
            denied = []\<rparr>
         ''data/''"
proof -
  let ?data = "JObj [(''id'', JNum 1)]"
  let ?path = "''data/get_post_2025-01-02T03-04-05-678Z.json''"
  have ok: "saveRawData \<lparr>nodes = [], denied = []\<rparr> ''2025-01-02T03:04:05.678Z'' ?data ''data/''
              ''get_post'' None
            = (Inr \<lparr>filePath = ?path, fileSize = 13\<rparr>,
               \<lparr>nodes = [(?path, File (JSON_stringify ?data 2)), (''data'', Dir)], denied = []\<rparr>)"
    by code_simp
  note t = saveRawData_result [OF ok]
  have a: "?path = path_join ''data/'' (''get_post'' @ paramsStr None @ ''_''
                      @ timestamp ''2025-01-02T03:04:05.678Z'' @ ''.json'')"
    using t [THEN conjunct1] by (simp only: SaveRawDataResult.select_convs)
  have b: "13 = length (JSON_stringify ?data 2)"
    using t [THEN conjunct2, THEN conjunct1] by (simp only: SaveRawDataResult.select_convs)
  have c: "readFileSync \<lparr>nodes = [(?path, File (JSON_stringify ?data 2)), (''data'', Dir)], denied = []\<rparr>
             ?path = Inr (JSON_stringify ?data 2)"
    using t [THEN conjunct2, THEN conjunct2, THEN conjunct1] by (simp only: SaveRawDataResult.select_convs)
  have d: "existsSync \<lparr>nodes = [(?path, File (JSON_stringify ?data 2)), (''data'', Dir)], denied = []\<rparr>
             ''data/''"
    using t [THEN conjunct2, THEN conjunct2, THEN conjunct2] by (simp only: SaveRawDataResult.select_convs)
  from ok a b c d show ?thesis by (intro conjI)
qed

theorem formatResponse_no_archive_witness:
  "\<exists>t. formatResponse \<lparr>maxItemsForContext = 10\<rparr> \<lparr>nodes = [], denied = []\<rparr>
          ''2025-01-02T03:04:05.678Z''
          (JObj [(''edges'', JArr (replicate 15 (JObj [(''node'', JObj [(''id'', JNum 1)])])))]) None
        = (Inr \<lparr>content = [\<lparr>content_type = ''text'', content_text = t\<rparr>]\<rparr>,
           \<lparr>nodes = [], denied = []\<rparr>)
      \<and> prefix ''## Response'' t
      \<and> str_includes t ([backtick] @ ''edges'' @ [backtick] @ '' limited to 10 items (15 total)'')
      \<and> str_includes t (''### Data ('' @ [backtick] @ ''edges'' @ [backtick] @ '': 10/15 items)'')"
proof -
  let ?cfg = "\<lparr>maxItemsForContext = 10\<rparr>"
  let ?node = "JObj [(''node'', JObj [(''id'', JNum 1)])]"
  let ?data = "JObj [(''edges'', JArr (replicate 15 ?node))]"
  let ?r = "\<lparr>limited = JObj [(''edges'', JArr (replicate 10 ?node))], originalCount = 15,
             wasLimited = True, limitedField = Some ''edges''\<rparr>"
  have li: "limitItems ?cfg ?data = Inr ?r" by code_simp
  have n10: "show_int 10 = ''10''" and n15: "show_int 15 = ''15''"
    by (simp_all add: show_int_def show_nat.simps digit_char_def)
  obtain t where
    t: "formatResponse ?cfg \<lparr>nodes = [], denied = []\<rparr> ''2025-01-02T03:04:05.678Z'' ?data None
          = (Inr \<lparr>content = [\<lparr>content_type = ''text'', content_text = t\<rparr>]\<rparr>,
             \<lparr>nodes = [], denied = []\<rparr>)"
       "prefix (''## '' @ or_default (case (None :: FormatResponseOptions option) of
                                        None \<Rightarrow> None | Some opts \<Rightarrow> toolName opts) ''Response'') t"
       "\<forall>f. wasLimited ?r \<and> limitedField ?r = Some f \<and> f \<noteq> [] \<longrightarrow>
                 str_includes t
                   ([backtick] @ f @ [backtick] @ '' limited to '' @ show_int (maxItemsForContext ?cfg)
                      @ '' items ('' @ show_int (originalCount ?r) @ '' total)'')
                 \<and> str_includes t
                   (''### Data ('' @ [backtick] @ f @ [backtick] @ '': ''
                      @ show_int (maxItemsForContext ?cfg) @ ''/'' @ show_int (originalCount ?r)
                      @ '' items)'')"
    using formatResponse_no_archive [OF _ li, of None "\<lparr>nodes = [], denied = []\<rparr>"
            "''2025-01-02T03:04:05.678Z''"]
    by blast
  have p: "prefix ''## Response'' t" using t(2) by (simp add: or_default_def)
  have "str_includes t ([backtick] @ ''edges'' @ [backtick] @ '' limited to '' @ show_int 10
                      @ '' items ('' @ show_int 15 @ '' total)'')
        \<and> str_includes t (''### Data ('' @ [backtick] @ ''edges'' @ [backtick] @ '': ''
                      @ show_int 10 @ ''/'' @ show_int 15 @ '' items)'')"
    using t(3) by (simp del: str_includes.simps)
  then have q: "str_includes t ([backtick] @ ''edges'' @ [backtick] @ '' limited to 10 items (15 total)'')
        \<and> str_includes t (''### Data ('' @ [backtick] @ ''edges'' @ [backtick] @ '': 10/15 items)'')"
    by (simp add: n10 n15 del: str_includes.simps)
  show ?thesis using t(1) p q by blast
qed

text \<open>
  X8: the renderer with an archive directory, when archiving succeeds and the limiter
  returns. It returns one text and the file system as the archiver left it. The text
  begins with the header naming the tool and holds the notice with the path of the
  archived file and its formatted size, the structure section with the outline of the
  limited value and the data section with the limited value as indented JSON; when a
  field was limited, the note about it ends with \<^verbatim>\<open>Full data saved to file.\<close>
\<close>

theorem formatResponse_archived:
  assumes d: "rawDataSaveDir opts = Some dir" and ne: "dir \<noteq> []"
      and sv: "saveRawData fs isoNow data dir (or_default (toolName opts) ''response'') (params opts)
                 = (Inr info, fs')"
      and li: "limitItems cfg data = Inr r"
  shows "\<exists>t. formatResponse cfg fs isoNow data (Some opts)
               = (Inr \<lparr>content = [\<lparr>content_type = ''text'', content_text = t\<rparr>]\<rparr>, fs')
           \<and> prefix (''## '' @ or_default (toolName opts) ''Response'') t
           \<and> str_includes t
                (''> **Raw data saved to**: '' @ [backtick] @ filePath info @ [backtick] @ '' (''
                   @ formatFileSize (fileSize info) @ '')'')
           \<and> str_includes t ''### JSON Structure''
           \<and> str_includes t (generateJsonStructureTree (limited r) [] True)
           \<and> str_includes t ''### Data''
           \<and> str_includes t (JSON_stringify (limited r) 2)
           \<and> (\<forall>f. wasLimited r \<and> limitedField r = Some f \<and> f \<noteq> [] \<longrightarrow>
                 str_includes t
                   ([backtick] @ f @ [backtick] @ '' limited to '' @ show_int (maxItemsForContext cfg)
                      @ '' items ('' @ show_int (originalCount r)
                      @ '' total). Full data saved to file.''))"
proof -
  let ?tool = "toolName opts"
  let ?t = "join [newline] (response_lines cfg ?tool (Some info) r)"
  have fr: "formatResponse cfg fs isoNow data (Some opts)
               = (Inr \<lparr>content = [\<lparr>content_type = ''text'', content_text = ?t\<rparr>]\<rparr>, fs')"
    using d ne sv li by (simp add: formatResponse_def)
  have hd: "prefix (''## '' @ or_default ?tool ''Response'') ?t"
    using response_lines_header [of cfg ?tool "Some info" r] join_prefix by metis
  have s0: "str_includes ?t
                (''> **Raw data saved to**: '' @ [backtick] @ filePath info @ [backtick] @ '' (''
                   @ formatFileSize (fileSize info) @ '')'')"
    using response_lines_saved str_includes_refl by (rule str_includes_join)
  have s1: "str_includes ?t ''### JSON Structure''" by (rule response_text_structure)
  have s2: "str_includes ?t ''### Data''" by (rule response_text_data)
  have s3: "str_includes ?t (generateJsonStructureTree (limited r) [] True)"
    using response_lines_tree(1) str_includes_refl by (rule str_includes_join)
  have s4: "str_includes ?t (JSON_stringify (limited r) 2)"
    using response_lines_tree(2) str_includes_refl by (rule str_includes_join)
  have s5: "str_includes ?t
                   ([backtick] @ f @ [backtick] @ '' limited to '' @ show_int (maxItemsForContext cfg)
                      @ '' items ('' @ show_int (originalCount r)
                      @ '' total). Full data saved to file.'')"
    if w: "wasLimited r" and l: "limitedField r = Some f" and n: "f \<noteq> []" for f
  proof -
    let ?mid = "[backtick] @ f @ [backtick] @ '' limited to '' @ show_int (maxItemsForContext cfg)
                      @ '' items ('' @ show_int (originalCount r)
                      @ '' total). Full data saved to file.''"
    let ?line = "''> **Note**: '' @ [backtick] @ f @ [backtick] @ '' limited to ''
        @ show_int (maxItemsForContext cfg) @ '' items ('' @ show_int (originalCount r)
        @ '' total). ''
        @ (if Some info \<noteq> None then ''Full data saved to file.''
           else ''Provide '' @ [backtick] @ ''raw_data_save_dir'' @ [backtick]
                  @ '' parameter to save full response.'')"
    have "?line = ''> **Note**: '' @ ?mid @ []" by simp
    then have "str_includes ?line ?mid" using str_includes_append by metis
    then show "str_includes ?t ?mid"
      using response_lines_note [OF w l n, of cfg "Some info" ?tool] str_includes_join by blast
  qed
  show ?thesis
    using fr hd s0 s1 s2 s3 s4 s5 by (intro exI [of _ ?t]) blast
qed

theorem formatResponse_archived_witness:
  "\<exists>t. formatResponse \<lparr>maxItemsForContext = 2\<rparr> \<lparr>nodes = [], denied = []\<rparr>
          ''2025-01-02T03:04:05.678Z'' (JObj [(''items'', JArr [JNum 1, JNum 2, JNum 3])])
          (Some \<lparr>rawDataSaveDir = Some ''/data'', toolName = Some ''get_posts'', params = None\<rparr>)
        = (Inr \<lparr>content = [\<lparr>content_type = ''text'', content_text = t\<rparr>]\<rparr>,
           \<lparr>nodes = [(''/data/get_posts_2025-01-02T03-04-05-678Z.json'',
                       File (JSON_stringify (JObj [(''items'', JArr [JNum 1, JNum 2, JNum 3])]) 2)),
                      (''/data'', Dir)],
              denied = []\<rparr>)
      \<and> prefix ''## get_posts'' t
      \<and> str_includes t
           (''> **Raw data saved to**: '' @ [backtick]
              @ ''/data/get_posts_2025-01-02T03-04-05-678Z.json'' @ [backtick] @ '' (40 B)'')
      \<and> str_includes t (generateJsonStructureTree (JObj [(''items'', JArr [JNum 1, JNum 2])]) [] True)
      \<and> str_includes t (JSON_stringify (JObj [(''items'', JArr [JNum 1, JNum 2])]) 2)
      \<and> str_includes t
           ([backtick] @ ''items'' @ [backtick]
              @ '' limited to 2 items (3 total). Full data saved to file.'')"
proof -
  let ?cfg = "\<lparr>maxItemsForContext = 2\<rparr>"
  let ?data = "JObj [(''items'', JArr [JNum 1, JNum 2, JNum 3])]"
  let ?lim = "JObj [(''items'', JArr [JNum 1, JNum 2])]"
  let ?opts = "\<lparr>rawDataSaveDir = Some ''/data'', toolName = Some ''get_posts'', params = None\<rparr>"
  let ?path = "''/data/get_posts_2025-01-02T03-04-05-678Z.json''"
  let ?fs' = "\<lparr>nodes = [(?path, File (JSON_stringify ?data 2)), (''/data'', Dir)], denied = []\<rparr>"
  let ?info = "\<lparr>filePath = ?path, fileSize = 40\<rparr>"
  let ?r = "\<lparr>limited = ?lim, originalCount = 3, wasLimited = True, limitedField = Some ''items''\<rparr>"
  have d: "rawDataSaveDir ?opts = Some ''/data''" by simp
  have ne: "''/data'' \<noteq> []" by simp
  have sv: "saveRawData \<lparr>nodes = [], denied = []\<rparr> ''2025-01-02T03:04:05.678Z'' ?data ''/data''
              (or_default (toolName ?opts) ''response'') (params ?opts) = (Inr ?info, ?fs')"
    by code_simp
  have li: "limitItems ?cfg ?data = Inr ?r" by code_simp
  have n2: "show_int 2 = ''2''" and n3: "show_int 3 = ''3''"
    by (simp_all add: show_int_def show_nat.simps digit_char_def)
  have sz: "formatFileSize 40 = ''40 B''" by (simp add: formatFileSize_eval)
  obtain t where
    t: "formatResponse ?cfg \<lparr>nodes = [], denied = []\<rparr> ''2025-01-02T03:04:05.678Z'' ?data (Some ?opts)
          = (Inr \<lparr>content = [\<lparr>content_type = ''text'', content_text = t\<rparr>]\<rparr>, ?fs')"
       "prefix (''## '' @ or_default (toolName ?opts) ''Response'') t"
       "str_includes t
          (''> **Raw data saved to**: '' @ [backtick] @ filePath ?info @ [backtick] @ '' (''
             @ formatFileSize (fileSize ?info) @ '')'')"
       "str_includes t (generateJsonStructureTree (limited ?r) [] True)"
       "str_includes t (JSON_stringify (limited ?r) 2)"
       "\<forall>f. wasLimited ?r \<and> limitedField ?r = Some f \<and> f \<noteq> [] \<longrightarrow>
                 str_includes t
                   ([backtick] @ f @ [backtick] @ '' limited to '' @ show_int (maxItemsForContext ?cfg)
                      @ '' items ('' @ show_int (originalCount ?r)
                      @ '' total). Full data saved to file.'')"
    using formatResponse_archived [OF d ne sv li] by blast
  have p: "prefix ''## get_posts'' t" using t(2) by (simp add: or_default_def)
  have a: "str_includes t
           (''> **Raw data saved to**: '' @ [backtick] @ ?path @ [backtick] @ '' (40 B)'')"
    using t(3) by (simp add: sz del: str_includes.simps)
  have b: "str_includes t (generateJsonStructureTree ?lim [] True)"
    using t(4) by (simp del: str_includes.simps generateJsonStructureTree.simps)
  have c: "str_includes t (JSON_stringify ?lim 2)"
    using t(5) by (simp del: str_includes.simps)
  have "str_includes t ([backtick] @ ''items'' @ [backtick] @ '' limited to '' @ show_int 2
                      @ '' items ('' @ show_int 3 @ '' total). Full data saved to file.'')"
    using t(6) by (simp del: str_includes.simps)
  then have e: "str_includes t ([backtick] @ ''items'' @ [backtick]
              @ '' limited to 2 items (3 total). Full data saved to file.'')"
    by (simp add: n2 n3 del: str_includes.simps)
  show ?thesis using t(1) p a b c e by blast
qed

lemma normalize_nonempty: "normalize p \<noteq> []"
  by (simp add: normalize_def Let_def)

lemma path_join_nonempty: "path_join d f \<noteq> []"
  by (simp add: path_join_def Let_def normalize_nonempty)

text \<open>
  X9: when \<^verbatim>\<open>saveRawData\<close> returns. On a file system where the directory is there,
  or is not there and may be created, where the derived path lies directly in that
  directory, is not a directory itself and may be written, \<^verbatim>\<open>saveRawData\<close>
  returns the derived path and the length of the text it wrote, and the file at that
  path then holds the value as indented JSON text.
\<close>

theorem saveRawData_returns:
  assumes "saveDir \<noteq> []"
      and "map_of (nodes fs) (fs_path saveDir) = Some Dir
           \<or> (map_of (nodes fs) (fs_path saveDir) = None \<and> fs_path saveDir \<notin> set (denied fs))"
      and "dirname (fs_path (path_join saveDir (filename isoNow tool ps))) = fs_path saveDir"
      and "fs_path (path_join saveDir (filename isoNow tool ps)) \<noteq> fs_path saveDir"
      and "fs_path (path_join saveDir (filename isoNow tool ps)) \<notin> set (denied fs)"
      and "map_of (nodes fs) (fs_path (path_join saveDir (filename isoNow tool ps))) \<noteq> Some Dir"
  shows "\<exists>fs'. saveRawData fs isoNow data saveDir tool ps
                 = (Inr \<lparr>filePath = path_join saveDir (filename isoNow tool ps),
                         fileSize = length (JSON_stringify data 2)\<rparr>, fs')
              \<and> readFileSync fs' (path_join saveDir (filename isoNow tool ps))
                  = Inr (JSON_stringify data 2)
              \<and> existsSync fs' saveDir"
proof -
  let ?path = "path_join saveDir (filename isoNow tool ps)"
  let ?p = "fs_path ?path"
  let ?content = "JSON_stringify data 2"
  define fs1 where
    "fs1 = (if map_of (nodes fs) (fs_path saveDir) = Some Dir then fs
            else fs\<lparr>nodes := (fs_path saveDir, Dir) # nodes fs\<rparr>)"
  have mk: "(if \<not> existsSync fs saveDir then mkdirSync fs saveDir else Inr fs) = Inr fs1"
    using assms(1,2) by (auto simp: existsSync_def mkdirSync_def fs1_def)
  have d1: "map_of (nodes fs1) (fs_path saveDir) = Some Dir" by (simp add: fs1_def)
  have p1: "map_of (nodes fs1) ?p = map_of (nodes fs) ?p" using assms(4) by (simp add: fs1_def)
  have de: "denied fs1 = denied fs" by (simp add: fs1_def)
  define fs2 where "fs2 = fs1\<lparr>nodes := (?p, File ?content) # nodes fs1\<rparr>"
  have wr: "writeFileSync fs1 ?path ?content = Inr fs2"
    using assms(3,5,6) d1 p1 de path_join_nonempty [of saveDir "filename isoNow tool ps"]
    by (cases "map_of (nodes fs) ?p")
       (auto simp: writeFileSync_def fs2_def split: fs_node.splits)
  have st: "statSync_size fs2 ?path = Inr (length ?content)"
    by (simp add: statSync_size_def fs2_def)
  have rd: "readFileSync fs2 ?path = Inr ?content" by (simp add: readFileSync_def fs2_def)
  have ex: "existsSync fs2 saveDir" using assms(1) d1 by (simp add: existsSync_def fs2_def)
  have "saveRawData fs isoNow data saveDir tool ps
          = (Inr \<lparr>filePath = ?path, fileSize = length ?content\<rparr>, fs2)"
    using mk wr st by (simp add: saveRawData_def Let_def)
  then show ?thesis using rd ex by blast
qed

theorem saveRawData_returns_witness:
  "\<exists>fs'. saveRawData \<lparr>nodes = [(''/srv'', Dir)], denied = [''/srv/private'']\<rparr>
             ''2025-01-02T03:04:05.678Z'' (JArr [JNum 1, JDec True 25 0])
             ''/srv/archive/'' ''get_posts'' (Some [(''first'', JNum 10)])
           = (Inr \<lparr>filePath = ''/srv/archive/get_posts_first=10_2025-01-02T03-04-05-678Z.json'',
                   fileSize = length (JSON_stringify (JArr [JNum 1, JDec True 25 0]) 2)\<rparr>, fs')
        \<and> readFileSync fs' ''/srv/archive/get_posts_first=10_2025-01-02T03-04-05-678Z.json''
            = Inr (JSON_stringify (JArr [JNum 1, JDec True 25 0]) 2)
        \<and> existsSync fs' ''/srv/archive/''"
proof -
  let ?fs = "\<lparr>nodes = [(''/srv'', Dir)], denied = [''/srv/private'']\<rparr>"
  let ?iso = "''2025-01-02T03:04:05.678Z''"
  let ?ps = "Some [(''first'', JNum 10)]"
  let ?path = "''/srv/archive/get_posts_first=10_2025-01-02T03-04-05-678Z.json''"
  have pj: "path_join ''/srv/archive/'' (filename ?iso ''get_posts'' ?ps) = ?path" by code_simp
  have fd: "fs_path ''/srv/archive/'' = ''/srv/archive''" by code_simp
  have fp: "fs_path ?path = ?path" by code_simp
  have dn: "dirname ?path = ''/srv/archive''" by code_simp
  have a1: "''/srv/archive/'' \<noteq> []" by simp
  have a2: "map_of (nodes ?fs) (fs_path ''/srv/archive/'') = Some Dir
           \<or> (map_of (nodes ?fs) (fs_path ''/srv/archive/'') = None
               \<and> fs_path ''/srv/archive/'' \<notin> set (denied ?fs))"
    by (simp add: fd)
  have a3: "dirname (fs_path (path_join ''/srv/archive/'' (filename ?iso ''get_posts'' ?ps)))
              = fs_path ''/srv/archive/''"
    by (simp add: pj fp fd dn)
  have a4: "fs_path (path_join ''/srv/archive/'' (filename ?iso ''get_posts'' ?ps))
              \<noteq> fs_path ''/srv/archive/''"
    by (simp add: pj fp fd)
  have a5: "fs_path (path_join ''/srv/archive/'' (filename ?iso ''get_posts'' ?ps)) \<notin> set (denied ?fs)"
    by (simp add: pj fp)
  have a6: "map_of (nodes ?fs) (fs_path (path_join ''/srv/archive/'' (filename ?iso ''get_posts'' ?ps)))
              \<noteq> Some Dir"
    by (simp add: pj fp)
  show ?thesis
    using saveRawData_returns [OF a1 a2 a3 a4 a5 a6, of "JArr [JNum 1, JDec True 25 0]"]
    by (simp only: pj)
qed

end
